theory Spec2Isabelle
  imports Main
begin

section \<open>The file search walker (FileWalker) of the search engine\<close>

text \<open>
  The development embeds the class \<open>FileWalker\<close> (constructor, \<open>cancel\<close>, \<open>walk\<close>,
  \<open>checkFilePatternAbsoluteMatch\<close>, \<open>checkFilePatternRelativeMatch\<close>, \<open>doWalk\<close>,
  \<open>matchFile\<close>, \<open>isFilePatternMatch\<close>, \<open>realPathIfNeeded\<close>).

  The walker is written in callback style over asynchronous filesystem calls. The
  embedding passes the walker's mutable fields explicitly, together with logs of what the
  walker does to the outside: the paths handed to \<open>onResult\<close> and the filesystem calls it
  issues. The synchronous part of every unit of work runs where the source runs it: all
  \<open>readdir\<close> calls of the root folders and all \<open>lstat\<close> calls of a directory are issued
  before the first of them calls back. A call that has been issued is in flight until
  its callback runs; the callbacks run one at a time, and which of the calls in flight
  calls back next is chosen by the environment. An error handed to a callback is a
  value of a sum type.
\<close>

subsection \<open>Data\<close>

datatype error = Error string

text \<open>\<open>fs.Stats\<close>: the two queries the walker makes.\<close>

record stats =
  isDirectory :: bool
  isSymbolicLink :: bool

text \<open>The filesystem calls the walker issues.\<close>

datatype fsop = Stat string | Lstat string | Readdir string | Realpath string

text \<open>\<open>IRawSearch\<close>: the fields of the configuration the walker reads.\<close>

record 'g rawSearch =
  config_filePattern :: "string option"
  config_excludePattern :: "'g option"
  config_includePattern :: "'g option"
  config_maxResults :: "int option"
  config_rootFolders :: "string list"
  config_extraFiles :: "string list option"

text \<open>
  What the walker imports from the platform and from modules outside this file:
  \<open>path\<close> (\<open>sep\<close>, \<open>isAbsolute\<close>, \<open>join\<close>, \<open>basename\<close>), \<open>fs\<close> and \<open>extfs\<close>
  (\<open>stat\<close>, \<open>lstat\<close>, \<open>readdir\<close>, \<open>realpath\<close>; an error is \<open>Inl\<close>), \<open>glob.match\<close>
  (expression, path, optional sibling names) and \<open>filters.matchesFuzzy\<close>. They are
  parameters. \<open>cancelAt\<close> is the environment's call of \<open>cancel()\<close>: \<open>Some k\<close> when it
  arrives after \<open>k\<close> asynchronous callbacks have run, \<open>None\<close> when it never arrives.
  \<open>completes\<close> is the order in which the filesystem calls back: when \<open>k\<close> callbacks have
  run, the call that calls back next is number \<open>completes k\<close> of the calls in flight,
  counted from 0 in the order of the branches and modulo their number.
\<close>

record 'g env =
  paths_sep :: char
  paths_isAbsolute :: "string \<Rightarrow> bool"
  paths_join :: "string \<Rightarrow> string \<Rightarrow> string"
  paths_basename :: "string \<Rightarrow> string"
  fs_stat :: "string \<Rightarrow> error + stats"
  fs_lstat :: "string \<Rightarrow> error + stats"
  fs_readdir :: "string \<Rightarrow> error + string list"
  fs_realpath :: "string \<Rightarrow> error + string"
  glob_match :: "'g option \<Rightarrow> string \<Rightarrow> string list option \<Rightarrow> bool"
  filters_matchesFuzzy :: "string \<Rightarrow> string \<Rightarrow> (nat \<times> nat) list option"
  cancelAt :: "nat option"
  completes :: "nat \<Rightarrow> nat"

text \<open>
  The mutable fields of a \<open>FileWalker\<close>, the results delivered to \<open>onResult\<close>, those among
  them that \<open>walk\<close> delivers itself on its two fast paths, the filesystem calls issued,
  and the number of asynchronous callbacks that have run. \<open>walkedPaths\<close> keeps its keys
  in the order of insertion.
\<close>

record walker =
  isLimitHit :: bool
  resultCount :: nat
  isCanceled :: bool
  walkedPaths :: "string list"
  results :: "string list"
  fastPathResults :: "string list"
  fsCalls :: "fsop list"
  callbacksRun :: nat

subsection \<open>Constructor and \<open>cancel\<close>\<close>

definition newWalker :: walker where
  "newWalker = \<lparr>isLimitHit = False, resultCount = 0, isCanceled = False,
     walkedPaths = [], results = [], fastPathResults = [], fsCalls = [], callbacksRun = 0\<rparr>"

definition cancel :: "walker \<Rightarrow> walker" where
  "cancel s = s\<lparr>isCanceled := True\<rparr>"

text \<open>A string or \<open>undefined\<close> used as a condition: defined and not empty.\<close>

definition truthy :: "string option \<Rightarrow> bool" where
  "truthy p = (case p of None \<Rightarrow> False | Some x \<Rightarrow> x \<noteq> [])"

text \<open>
  Modelled from the spec: \<open>strings.replaceAll\<close> and \<open>strings.trim\<close> of
  \<open>vs/base/common/strings\<close> and \<open>arrays.coalesce\<close> of \<open>vs/base/common/arrays\<close> are not
  under src/. The file pattern is "normalized to use \<open>/\<close> as separator", the relative
  path is joined by "trimming leading/trailing separators", and the collected errors
  are searched for "the first non-null one".
\<close>

definition replaceAll_backslash :: "string \<Rightarrow> string" where
  "replaceAll_backslash p = map (\<lambda>c. if c = CHR 0x5C then CHR ''/'' else c) p"

definition trim_slash :: "string \<Rightarrow> string" where
  "trim_slash p = rev (dropWhile (\<lambda>c. c = CHR ''/'') (rev (dropWhile (\<lambda>c. c = CHR ''/'') p)))"

definition coalesce :: "'a option list \<Rightarrow> 'a list" where
  "coalesce xs = List.map_filter (\<lambda>x. x) xs"

text \<open>\<open>this.searchInPath\<close>, \<open>this.filePattern\<close> and \<open>this.maxResults\<close> as the constructor sets them.\<close>

definition searchInPath :: "'g env \<Rightarrow> 'g rawSearch \<Rightarrow> bool" where
  "searchInPath E C =
     (case config_filePattern C of None \<Rightarrow> False
      | Some p \<Rightarrow> p \<noteq> [] \<and> paths_sep E \<in> set p)"

definition filePattern :: "'g env \<Rightarrow> 'g rawSearch \<Rightarrow> string option" where
  "filePattern E C =
     (case config_filePattern C of None \<Rightarrow> None
      | Some p \<Rightarrow> if p \<noteq> [] \<and> paths_sep E \<in> set p then Some (replaceAll_backslash p) else Some p)"

definition maxResults :: "'g rawSearch \<Rightarrow> int option" where
  "maxResults C =
     (case config_maxResults C of None \<Rightarrow> None
      | Some n \<Rightarrow> if n = 0 then None else Some n)"

subsection \<open>Effects\<close>

text \<open>\<open>onResult({ path: p })\<close>.\<close>

definition onResult :: "string \<Rightarrow> walker \<Rightarrow> walker" where
  "onResult p s = s\<lparr>results := results s @ [p]\<rparr>"

text \<open>\<open>onResult({ path: p })\<close> where \<open>walk\<close> calls it itself, on one of its two fast paths.\<close>

definition fastPathResult :: "string \<Rightarrow> walker \<Rightarrow> walker" where
  "fastPathResult p s = onResult p (s\<lparr>fastPathResults := fastPathResults s @ [p]\<rparr>)"

text \<open>Issuing a filesystem call.\<close>

definition callFs :: "fsop \<Rightarrow> walker \<Rightarrow> walker" where
  "callFs c s = s\<lparr>fsCalls := fsCalls s @ [c]\<rparr>"

text \<open>
  An asynchronous callback starts to run: \<open>cancel()\<close> has been called by then if the
  environment calls it after this many callbacks.
\<close>

definition resume :: "'g env \<Rightarrow> walker \<Rightarrow> walker" where
  "resume E s = s\<lparr>isCanceled := (isCanceled s \<or> cancelAt E = Some (callbacksRun s)),
     callbacksRun := Suc (callbacksRun s)\<rparr>"

text \<open>\<open>this.walkedPaths[realpath] = true\<close>.\<close>

definition markWalked :: "string \<Rightarrow> walker \<Rightarrow> walker" where
  "markWalked realpath s = s\<lparr>walkedPaths := walkedPaths s @ [realpath]\<rparr>"

definition stopped :: "walker \<Rightarrow> bool" where
  "stopped s = (isCanceled s \<or> isLimitHit s)"

subsection \<open>\<open>isFilePatternMatch\<close> and \<open>matchFile\<close>\<close>

definition isFilePatternMatch :: "'g env \<Rightarrow> 'g rawSearch \<Rightarrow> string \<Rightarrow> string \<Rightarrow> bool" where
  "isFilePatternMatch E C name path =
     (if truthy (filePattern E C)
      then (case filePattern E C of None \<Rightarrow> False
            | Some p \<Rightarrow> (case filters_matchesFuzzy E p path of None \<Rightarrow> False
                         | Some res \<Rightarrow> length res > 0))
      else True)"

definition includeMatch :: "'g env \<Rightarrow> 'g rawSearch \<Rightarrow> string \<Rightarrow> bool" where
  "includeMatch E C relativePath =
     (case config_includePattern C of None \<Rightarrow> True
      | Some g \<Rightarrow> glob_match E (Some g) relativePath None)"

definition matchFile :: "'g env \<Rightarrow> 'g rawSearch \<Rightarrow> string \<Rightarrow> string \<Rightarrow> string \<Rightarrow> walker \<Rightarrow> walker" where
  "matchFile E C basename absolutePath relativePath s =
     (if isFilePatternMatch E C basename relativePath \<and> includeMatch E C relativePath
      then
        (let s1 = s\<lparr>resultCount := resultCount s + 1\<rparr>;
             s2 = (case maxResults C of None \<Rightarrow> s1
                   | Some m \<Rightarrow> if int (resultCount s1) > m then s1\<lparr>isLimitHit := True\<rparr> else s1)
         in if \<not> isLimitHit s2 then onResult absolutePath s2 else s2)
      else s)"

subsection \<open>Calls in flight and branches\<close>

text \<open>
  A filesystem call the walk has issued whose callback has not run yet, with what its
  callback refers to: \<open>extfs.readdir\<close> of a root folder (\<open>absolutePath\<close>), \<open>fs.stat\<close> of
  \<open>checkFilePatternRelativeMatch\<close> for a root folder (\<open>basePath\<close>, the \<open>files\<close> of the root
  folder, the path examined), \<open>fs.lstat\<close> of a file of a directory (\<open>absolutePath\<close>,
  \<open>relativeParentPath\<close>, \<open>file\<close>), \<open>fs.realpath\<close> and \<open>extfs.readdir\<close> of a directory found
  (\<open>currentPath\<close>, \<open>relativeFilePath\<close>).
\<close>

datatype call =
    RootReaddir string
  | RelativeStat string "string list" string
  | EntryLstat string string string
  | EntryRealpath string string
  | EntryReaddir string string

text \<open>
  A branch of the walk, which ends by calling the callback it was given (\<open>clb\<close>,
  \<open>perEntryCallback\<close>): it waits for a call in flight, or it has called back with an error
  or null, or it is a \<open>flow.parallel\<close> over the files of a directory, which calls back
  when the branch of every file has.
\<close>

datatype task = InFlight call | Called "error option" | Parallel "task list"

text \<open>The calls in flight in a branch, and in the branches of a list.\<close>

fun calls :: "task \<Rightarrow> call list" where
  "calls (InFlight c) = [c]"
| "calls (Called e) = []"
| "calls (Parallel ts) = concat (map calls ts)"

definition callsIn :: "task list \<Rightarrow> call list" where
  "callsIn ts = concat (map calls ts)"

subsection \<open>The two fast paths and \<open>realPathIfNeeded\<close>\<close>

definition existingFile :: "error + stats \<Rightarrow> bool" where
  "existingFile r = (case r of Inl e \<Rightarrow> False | Inr st \<Rightarrow> \<not> isDirectory st)"

text \<open>
  \<open>checkFilePatternAbsoluteMatch\<close>, with what it hands to its callback. Its \<open>fs.stat\<close> is
  the only call in flight, so that the callback of that call is the next to run.
\<close>

definition checkFilePatternAbsoluteMatch :: "'g env \<Rightarrow> 'g rawSearch \<Rightarrow> walker \<Rightarrow> bool \<times> walker" where
  "checkFilePatternAbsoluteMatch E C s =
     (case filePattern E C of None \<Rightarrow> (False, s)
      | Some p \<Rightarrow>
          if p = [] \<or> \<not> paths_isAbsolute E p then (False, s)
          else (existingFile (fs_stat E p), resume E (callFs (Stat p) s)))"

text \<open>
  \<open>checkFilePatternRelativeMatch\<close>: it calls back at once with null (\<open>Inl None\<close>), or it
  issues \<open>fs.stat\<close> for a path (\<open>Inr\<close>), whose callback hands on that path if it is an
  existing file.
\<close>

definition checkFilePatternRelativeMatch ::
  "'g env \<Rightarrow> 'g rawSearch \<Rightarrow> string \<Rightarrow> walker \<Rightarrow> (string option + string) \<times> walker" where
  "checkFilePatternRelativeMatch E C basePath s =
     (case filePattern E C of None \<Rightarrow> (Inl None, s)
      | Some p \<Rightarrow>
          if p = [] \<or> paths_isAbsolute E p \<or> \<not> searchInPath E C then (Inl None, s)
          else (let absolutePath = paths_join E basePath p
                in (Inr absolutePath, callFs (Stat absolutePath) s)))"

definition relativeStatResult :: "string \<Rightarrow> error + stats \<Rightarrow> string option" where
  "relativeStatResult absolutePath r = (if existingFile r then Some absolutePath else None)"

text \<open>
  \<open>realPathIfNeeded\<close>: it issues \<open>fs.realpath\<close> for a symbolic link (\<open>None\<close>), whose
  callback hands on what it is handed, or it calls back at once with the path.
\<close>

definition realPathIfNeeded :: "string \<Rightarrow> stats \<Rightarrow> walker \<Rightarrow> (error + string) option \<times> walker" where
  "realPathIfNeeded path lstat s =
     (if isSymbolicLink lstat then (None, callFs (Realpath path) s)
      else (Some (Inr path), s))"

subsection \<open>\<open>doWalk\<close>\<close>

text \<open>
  Modelled from the spec: \<open>flow.parallel\<close> of \<open>vs/base/node/flow\<close> is not under src/.
  It runs the function on every item, waits until every item has called back, and hands
  the errors collected per item to its callback, or null when no item reported one.
\<close>

definition parallel_errors :: "error option list \<Rightarrow> error option list option" where
  "parallel_errors errs = (if list_ex (\<lambda>e. e \<noteq> None) errs then Some errs else None)"

definition relativeFilePath :: "string \<Rightarrow> string \<Rightarrow> string" where
  "relativeFilePath relativeParentPath file = trim_slash (relativeParentPath @ ''/'' @ file)"

definition siblings :: "'g rawSearch \<Rightarrow> string list \<Rightarrow> string \<Rightarrow> string list" where
  "siblings C files file = (if config_filePattern C = Some file then [] else files)"

text \<open>
  The synchronous part of the function \<open>doWalk\<close> runs on a file: whether it goes on to
  \<open>fs.lstat\<close>. All files of the directory see the same walker fields here.
\<close>

definition entryProceeds :: "'g env \<Rightarrow> 'g rawSearch \<Rightarrow> string \<Rightarrow> string list \<Rightarrow> walker \<Rightarrow> string \<Rightarrow> bool" where
  "entryProceeds E C relativeParentPath files s file =
     (if stopped s then False
      else if glob_match E (config_excludePattern C) (relativeFilePath relativeParentPath file)
                (Some (siblings C files file)) then False
      else True)"

definition issueLstats :: "'g env \<Rightarrow> 'g rawSearch \<Rightarrow> string \<Rightarrow> string \<Rightarrow> string list \<Rightarrow> walker \<Rightarrow> walker" where
  "issueLstats E C absolutePath relativeParentPath files s =
     fold (\<lambda>file. callFs (Lstat (paths_join E absolutePath file)))
       (filter (entryProceeds E C relativeParentPath files s) files) s"

text \<open>The callback \<open>doWalk\<close> gives to \<open>flow.parallel\<close>: the error it hands to \<open>done\<close>.\<close>

definition doWalk_done :: "error option list \<Rightarrow> error option" where
  "doWalk_done errs =
     (case parallel_errors errs of None \<Rightarrow> None
      | Some es \<Rightarrow> (case coalesce es of [] \<Rightarrow> None | e # rest \<Rightarrow> Some e))"

text \<open>
  \<open>doWalk\<close>: a file that does not go on to \<open>fs.lstat\<close> has called back with null, for
  every other file an \<open>fs.lstat\<close> is in flight.
\<close>

definition doWalk ::
  "'g env \<Rightarrow> 'g rawSearch \<Rightarrow> string \<Rightarrow> string \<Rightarrow> string list \<Rightarrow> walker \<Rightarrow> task \<times> walker" where
  "doWalk E C absolutePath relativeParentPath files s =
     (Parallel (map (\<lambda>file. if entryProceeds E C relativeParentPath files s file
                             then InFlight (EntryLstat absolutePath relativeParentPath file)
                             else Called None) files),
      issueLstats E C absolutePath relativeParentPath files s)"

text \<open>
  The callbacks nested in the function \<open>doWalk\<close> runs on a file, each taking what the
  filesystem call handed to it and the walker as it is when the callback starts, and
  yielding what has become of the branch of the file.
\<close>

text \<open>The callback of \<open>extfs.readdir\<close> on a directory found by the walk.\<close>

definition readdirCallback ::
  "'g env \<Rightarrow> 'g rawSearch \<Rightarrow> string \<Rightarrow> string \<Rightarrow> error + string list \<Rightarrow> walker \<Rightarrow> task \<times> walker" where
  "readdirCallback E C currentPath relPath r s =
     (case r of
        Inl err \<Rightarrow> (Called None, s)
      | Inr children \<Rightarrow>
          if stopped s then (Called None, s)
          else doWalk E C currentPath relPath children s)"

text \<open>The callback of \<open>realPathIfNeeded\<close>.\<close>

definition realpathCallback ::
  "string \<Rightarrow> string \<Rightarrow> error + string \<Rightarrow> walker \<Rightarrow> task \<times> walker" where
  "realpathCallback currentPath relPath r s =
     (case r of
        Inl err \<Rightarrow> (Called None, s)
      | Inr realpath \<Rightarrow>
          if stopped s then (Called None, s)
          else if realpath \<in> set (walkedPaths s) then (Called None, s)
          else (InFlight (EntryReaddir currentPath relPath),
                callFs (Readdir currentPath) (markWalked realpath s)))"

text \<open>The callback of \<open>fs.lstat\<close>.\<close>

definition lstatCallback ::
  "'g env \<Rightarrow> 'g rawSearch \<Rightarrow> string \<Rightarrow> string \<Rightarrow> string \<Rightarrow> error + stats \<Rightarrow> walker \<Rightarrow> task \<times> walker" where
  "lstatCallback E C absolutePath relativeParentPath file r s =
     (let currentPath = paths_join E absolutePath file;
          relPath = relativeFilePath relativeParentPath file
      in case r of
           Inl err \<Rightarrow> (Called None, s)
         | Inr lstat \<Rightarrow>
             if stopped s then (Called None, s)
             else if isDirectory lstat then
               (case realPathIfNeeded currentPath lstat s of
                  (None, s1) \<Rightarrow> (InFlight (EntryRealpath currentPath relPath), s1)
                | (Some rp, s1) \<Rightarrow> realpathCallback currentPath relPath rp s1)
             else if Some relPath = filePattern E C then (Called None, s)
             else (Called None, matchFile E C file currentPath relPath s))"

subsection \<open>\<open>walk\<close> and \<open>Engine.search\<close>\<close>

text \<open>One extra file: the body of the loop over \<open>extraFiles\<close>.\<close>

definition extraFile :: "'g env \<Rightarrow> 'g rawSearch \<Rightarrow> string \<Rightarrow> walker \<Rightarrow> walker" where
  "extraFile E C extraFilePath s =
     (if glob_match E (config_excludePattern C) extraFilePath None then s
      else matchFile E C (paths_basename E extraFilePath) extraFilePath extraFilePath s)"

text \<open>The arguments of \<open>done\<close> after the root folders: \<open>err ? err[0] : null\<close> and the limit flag.\<close>

definition walk_done :: "error option list \<Rightarrow> walker \<Rightarrow> error option \<times> bool" where
  "walk_done errs s =
     ((case parallel_errors errs of None \<Rightarrow> None
       | Some es \<Rightarrow> (case es of [] \<Rightarrow> None | e # rest \<Rightarrow> e)),
      isLimitHit s)"

text \<open>The callback of \<open>checkFilePatternRelativeMatch\<close> on a root folder.\<close>

definition relativeMatchCallback ::
  "'g env \<Rightarrow> 'g rawSearch \<Rightarrow> string \<Rightarrow> string list \<Rightarrow> string option \<Rightarrow> walker \<Rightarrow> task \<times> walker" where
  "relativeMatchCallback E C absolutePath files match s =
     (if stopped s then (Called None, s)
      else doWalk E C absolutePath [] files
             (case match of None \<Rightarrow> s | Some m \<Rightarrow> fastPathResult m s))"

text \<open>The callback of \<open>extfs.readdir\<close> on a root folder.\<close>

definition rootReaddirCallback ::
  "'g env \<Rightarrow> 'g rawSearch \<Rightarrow> string \<Rightarrow> error + string list \<Rightarrow> walker \<Rightarrow> task \<times> walker" where
  "rootReaddirCallback E C absolutePath r s =
     (case r of
        Inl err \<Rightarrow> (Called None, s)
      | Inr files \<Rightarrow>
          if stopped s then (Called None, s)
          else
            (case checkFilePatternRelativeMatch E C absolutePath s of
               (Inl match, s1) \<Rightarrow> relativeMatchCallback E C absolutePath files match s1
             | (Inr path, s1) \<Rightarrow> (InFlight (RelativeStat absolutePath files path), s1)))"

subsection \<open>The callbacks run one at a time\<close>

text \<open>
  The callback of a call in flight starts to run: it is handed what the filesystem
  yields for the call.
\<close>

definition callback :: "'g env \<Rightarrow> 'g rawSearch \<Rightarrow> call \<Rightarrow> walker \<Rightarrow> task \<times> walker" where
  "callback E C c s =
     (case c of
        RootReaddir absolutePath \<Rightarrow>
          rootReaddirCallback E C absolutePath (fs_readdir E absolutePath) (resume E s)
      | RelativeStat basePath files path \<Rightarrow>
          relativeMatchCallback E C basePath files (relativeStatResult path (fs_stat E path)) (resume E s)
      | EntryLstat absolutePath relativeParentPath file \<Rightarrow>
          lstatCallback E C absolutePath relativeParentPath file
            (fs_lstat E (paths_join E absolutePath file)) (resume E s)
      | EntryRealpath currentPath relPath \<Rightarrow>
          realpathCallback currentPath relPath (fs_realpath E currentPath) (resume E s)
      | EntryReaddir currentPath relPath \<Rightarrow>
          readdirCallback E C currentPath relPath (fs_readdir E currentPath) (resume E s))"

text \<open>
  Call number \<open>i\<close> of the calls in flight in a branch, or in the branches of a list,
  calls back: \<open>cb\<close> is what its callback makes of the branch that waited for it. Every
  other branch is as it was.
\<close>

fun complete :: "(call \<Rightarrow> walker \<Rightarrow> task \<times> walker) \<Rightarrow> nat \<Rightarrow> task \<Rightarrow> walker \<Rightarrow> task \<times> walker"
  and completeIn :: "(call \<Rightarrow> walker \<Rightarrow> task \<times> walker) \<Rightarrow> nat \<Rightarrow> task list \<Rightarrow> walker \<Rightarrow> task list \<times> walker" where
  "complete cb i (InFlight c) s = cb c s"
| "complete cb i (Called e) s = (Called e, s)"
| "complete cb i (Parallel ts) s = (case completeIn cb i ts s of (ts', s') \<Rightarrow> (Parallel ts', s'))"
| "completeIn cb i [] s = ([], s)"
| "completeIn cb i (t # ts) s =
     (if i < length (calls t)
      then (case complete cb i t s of (t', s') \<Rightarrow> (t' # ts, s'))
      else (case completeIn cb (i - length (calls t)) ts s of (ts', s') \<Rightarrow> (t # ts', s')))"

text \<open>The next callback runs: the environment chooses the call it belongs to.\<close>

definition step :: "'g env \<Rightarrow> 'g rawSearch \<Rightarrow> task list \<Rightarrow> walker \<Rightarrow> task list \<times> walker" where
  "step E C ts s =
     completeIn (callback E C) (completes E (callbacksRun s) mod length (callsIn ts)) ts s"

text \<open>
  The error a branch that has called back has handed to its callback: the callback of
  \<open>flow.parallel\<close> in \<open>doWalk\<close> hands on the first error of the files.
\<close>

fun handedOn :: "task \<Rightarrow> error option" where
  "handedOn (InFlight c) = None"
| "handedOn (Called e) = e"
| "handedOn (Parallel ts) = doWalk_done (map handedOn ts)"

text \<open>
  The branches of the root folders run until no call is in flight: then every branch
  has called back, and the callback of \<open>flow.parallel\<close> in \<open>walk\<close> calls \<open>done\<close>. The first
  argument bounds the number of callbacks that run: where more would run the result is
  \<open>None\<close>.
\<close>

primrec run ::
  "nat \<Rightarrow> 'g env \<Rightarrow> 'g rawSearch \<Rightarrow> task list \<Rightarrow> walker \<Rightarrow> ((error option \<times> bool) \<times> walker) option" where
  "run 0 E C ts s =
     (if callsIn ts = [] then Some (walk_done (map handedOn ts) s, s) else None)"
| "run (Suc n) E C ts s =
     (if callsIn ts = [] then Some (walk_done (map handedOn ts) s, s)
      else (case step E C ts s of (ts', s') \<Rightarrow> run n E C ts' s'))"

text \<open>
  The callback of \<open>checkFilePatternAbsoluteMatch\<close>: the arguments handed to \<open>done\<close> and
  the walker at that moment, or \<open>None\<close> where the bound was reached.
\<close>

definition absoluteMatchCallback ::
  "nat \<Rightarrow> 'g env \<Rightarrow> 'g rawSearch \<Rightarrow> string list \<Rightarrow> string list option \<Rightarrow> bool \<Rightarrow> walker
    \<Rightarrow> ((error option \<times> bool) \<times> walker) option" where
  "absoluteMatchCallback n E C rootFolders extraFiles exists s =
     (if isCanceled s then Some ((None, isLimitHit s), s)
      else if exists then
        (let s1 = (case filePattern E C of None \<Rightarrow> s | Some p \<Rightarrow> fastPathResult p s)
         in Some ((None, isLimitHit s1), s1))
      else
        (let s1 = (case extraFiles of None \<Rightarrow> s | Some xs \<Rightarrow> fold (extraFile E C) xs s);
             s2 = fold (\<lambda>absolutePath. callFs (Readdir absolutePath)) rootFolders s1
         in run n E C (map (\<lambda>absolutePath. InFlight (RootReaddir absolutePath)) rootFolders) s2))"

text \<open>\<open>walk\<close>.\<close>

definition walk ::
  "nat \<Rightarrow> 'g env \<Rightarrow> 'g rawSearch \<Rightarrow> string list \<Rightarrow> string list option \<Rightarrow> walker
    \<Rightarrow> ((error option \<times> bool) \<times> walker) option" where
  "walk n E C rootFolders extraFiles s0 =
     (case checkFilePatternAbsoluteMatch E C s0 of
        (exists, s) \<Rightarrow> absoluteMatchCallback n E C rootFolders extraFiles exists s)"

text \<open>\<open>Engine.search\<close> on a new engine: a new walker walks the configured folders and files.\<close>

definition search :: "nat \<Rightarrow> 'g env \<Rightarrow> 'g rawSearch \<Rightarrow> ((error option \<times> bool) \<times> walker) option" where
  "search n E C = walk n E C (config_rootFolders C) (config_extraFiles C) newWalker"


subsection \<open>Example configurations and file systems\<close>

text \<open>
  A glob expression of the examples: a path, or a path that matches only where a given
  sibling name exists (without sibling names it does not match).
\<close>

datatype glob = Exact string | WhenSibling string string

fun globExample :: "glob option \<Rightarrow> string \<Rightarrow> string list option \<Rightarrow> bool" where
  "globExample None p sibs = False"
| "globExample (Some (Exact x)) p sibs = (p = x)"
| "globExample (Some (WhenSibling x y)) p sibs =
     (p = x \<and> (case sibs of None \<Rightarrow> False | Some names \<Rightarrow> y \<in> set names))"

text \<open>The fuzzy matcher of the examples: the pattern is a subsequence of the path.\<close>

fun subseqOf :: "string \<Rightarrow> string \<Rightarrow> bool" where
  "subseqOf [] ys = True"
| "subseqOf (x # xs) [] = False"
| "subseqOf (x # xs) (y # ys) = (if x = y then subseqOf xs ys else subseqOf (x # xs) ys)"

definition fuzzyExample :: "string \<Rightarrow> string \<Rightarrow> (nat \<times> nat) list option" where
  "fuzzyExample pat p = (if subseqOf pat p then Some [(0, length pat)] else None)"

definition fileStats :: stats where
  "fileStats = \<lparr>isDirectory = False, isSymbolicLink = False\<rparr>"

definition dirStats :: stats where
  "dirStats = \<lparr>isDirectory = True, isSymbolicLink = False\<rparr>"

definition linkStats :: stats where
  "linkStats = \<lparr>isDirectory = False, isSymbolicLink = True\<rparr>"

text \<open>POSIX paths over an empty file system; \<open>cancel()\<close> is never called, and the first
  of the calls in flight is always the next to call back.\<close>

definition posix :: "glob env" where
  "posix = \<lparr>paths_sep = CHR ''/'',
     paths_isAbsolute = (\<lambda>p. case p of [] \<Rightarrow> False | c # cs \<Rightarrow> c = CHR ''/''),
     paths_join = (\<lambda>a b. a @ ''/'' @ b),
     paths_basename = (\<lambda>p. rev (takeWhile (\<lambda>c. c \<noteq> CHR ''/'') (rev p))),
     fs_stat = (\<lambda>p. Inl (Error ''ENOENT'')),
     fs_lstat = (\<lambda>p. Inl (Error ''ENOENT'')),
     fs_readdir = (\<lambda>p. Inl (Error ''ENOENT'')),
     fs_realpath = (\<lambda>p. Inl (Error ''ENOENT'')),
     glob_match = globExample,
     filters_matchesFuzzy = fuzzyExample,
     cancelAt = None,
     completes = (\<lambda>k. 0)\<rparr>"

text \<open>The folder \<open>/r\<close> holds the file \<open>a.txt\<close> and the folder \<open>d\<close>, which holds the file \<open>b.txt\<close>.\<close>

definition treeStat :: "string \<Rightarrow> error + stats" where
  "treeStat p =
     (if p = ''/r'' \<or> p = ''/r/d'' then Inr dirStats
      else if p = ''/r/a.txt'' \<or> p = ''/r/d/b.txt'' then Inr fileStats
      else Inl (Error ''ENOENT''))"

definition treeReaddir :: "string \<Rightarrow> error + string list" where
  "treeReaddir p =
     (if p = ''/r'' then Inr [''a.txt'', ''d'']
      else if p = ''/r/d'' then Inr [''b.txt'']
      else if p = ''/r/a.txt'' \<or> p = ''/r/d/b.txt'' then Inl (Error ''ENOTDIR'')
      else Inl (Error ''ENOENT''))"

definition treeFs :: "glob env" where
  "treeFs = posix\<lparr>fs_stat := treeStat, fs_lstat := treeStat, fs_readdir := treeReaddir,
     fs_realpath := (\<lambda>p. case treeStat p of Inl e \<Rightarrow> Inl e | Inr st \<Rightarrow> Inr p)\<rparr>"

text \<open>A search of the folder \<open>/r\<close> with no pattern and no limit.\<close>

definition listAll :: "glob rawSearch" where
  "listAll = \<lparr>config_filePattern = None, config_excludePattern = None,
     config_includePattern = None, config_maxResults = None,
     config_rootFolders = [''/r''], config_extraFiles = None\<rparr>"

text \<open>A search whose file pattern is the absolute path of the file \<open>/r/a.txt\<close>.\<close>

definition absoluteConfig :: "glob rawSearch" where
  "absoluteConfig = listAll\<lparr>config_filePattern := Some ''/r/a.txt''\<rparr>"

text \<open>
  The folders \<open>/p\<close> and \<open>/q\<close> each hold a folder \<open>x\<close> with a file \<open>f.txt\<close>; the search
  asks both for \<open>x/f.txt\<close> with at most one result.
\<close>

definition pairStat :: "string \<Rightarrow> error + stats" where
  "pairStat p =
     (if p = ''/p'' \<or> p = ''/p/x'' \<or> p = ''/q'' \<or> p = ''/q/x'' then Inr dirStats
      else if p = ''/p/x/f.txt'' \<or> p = ''/q/x/f.txt'' then Inr fileStats
      else Inl (Error ''ENOENT''))"

definition pairReaddir :: "string \<Rightarrow> error + string list" where
  "pairReaddir p =
     (if p = ''/p'' \<or> p = ''/q'' then Inr [''x'']
      else if p = ''/p/x'' \<or> p = ''/q/x'' then Inr [''f.txt'']
      else Inl (Error ''ENOENT''))"

definition pairFs :: "glob env" where
  "pairFs = posix\<lparr>fs_stat := pairStat, fs_lstat := pairStat, fs_readdir := pairReaddir,
     fs_realpath := (\<lambda>p. case pairStat p of Inl e \<Rightarrow> Inl e | Inr st \<Rightarrow> Inr p)\<rparr>"

definition relativeConfig :: "glob rawSearch" where
  "relativeConfig = \<lparr>config_filePattern = Some ''x/f.txt'', config_excludePattern = None,
     config_includePattern = None, config_maxResults = Some 1,
     config_rootFolders = [''/p'', ''/q''], config_extraFiles = None\<rparr>"

text \<open>A search of the folder \<open>/r\<close> with at most one result.\<close>

definition listOne :: "glob rawSearch" where
  "listOne = listAll\<lparr>config_maxResults := Some 1\<rparr>"

text \<open>A search of two open files and no folder, with at most one result.\<close>

definition extraOnly :: "glob rawSearch" where
  "extraOnly = listAll\<lparr>config_maxResults := Some 1, config_rootFolders := [],
     config_extraFiles := Some [''/x/one'', ''/x/two'']\<rparr>"





text \<open>The walker at the end of that search, and a walker that has delivered one result.\<close>

definition listOneEnd :: walker where
  "listOneEnd = \<lparr>isLimitHit = True, resultCount = 2, isCanceled = False,
     walkedPaths = [''/r/d''], results = [''/r/a.txt''], fastPathResults = [],
     fsCalls = [Readdir ''/r'', Lstat ''/r/a.txt'', Lstat ''/r/d'', Readdir ''/r/d'',
       Lstat ''/r/d/b.txt''],
     callbacksRun = 5\<rparr>"

definition oneDelivered :: walker where
  "oneDelivered = newWalker\<lparr>resultCount := 1, results := [''/r/a.txt'']\<rparr>"



text \<open>A walker for which \<open>cancel()\<close> has been called.\<close>

definition canceledWalker :: walker where
  "canceledWalker = cancel oneDelivered"

text \<open>
  The folder \<open>/w\<close> holds \<open>a.js\<close> and \<open>a.ts\<close>; the search excludes \<open>a.js\<close> where
  its sibling \<open>a.ts\<close> exists, with no file pattern and with the file pattern \<open>a.js\<close>.
\<close>

definition scriptStat :: "string \<Rightarrow> error + stats" where
  "scriptStat p =
     (if p = ''/w'' then Inr dirStats
      else if p = ''/w/a.js'' \<or> p = ''/w/a.ts'' then Inr fileStats
      else Inl (Error ''ENOENT''))"

definition scriptFs :: "glob env" where
  "scriptFs = posix\<lparr>fs_stat := scriptStat, fs_lstat := scriptStat,
     fs_readdir := (\<lambda>p. if p = ''/w'' then Inr [''a.js'', ''a.ts''] else Inl (Error ''ENOENT'')),
     fs_realpath := (\<lambda>p. case scriptStat p of Inl e \<Rightarrow> Inl e | Inr st \<Rightarrow> Inr p)\<rparr>"

definition excludeCompiled :: "glob rawSearch" where
  "excludeCompiled = listAll\<lparr>config_excludePattern := Some (WhenSibling ''a.js'' ''a.ts''),
     config_rootFolders := [''/w'']\<rparr>"

definition exactScript :: "glob rawSearch" where
  "exactScript = excludeCompiled\<lparr>config_filePattern := Some ''a.js''\<rparr>"

text \<open>A search of the folder \<open>/r\<close> for the file name \<open>a.txt\<close>.\<close>

definition exactName :: "glob rawSearch" where
  "exactName = listAll\<lparr>config_filePattern := Some ''a.txt''\<rparr>"

text \<open>
  Searches of \<open>/r\<close> with an include pattern that matches no path and at most one
  result: for the absolute path \<open>/r/a.txt\<close> and for the relative path \<open>d/b.txt\<close>, and the
  walker at the end of the latter.
\<close>

definition absoluteInclude :: "glob rawSearch" where
  "absoluteInclude = absoluteConfig\<lparr>config_includePattern := Some (WhenSibling ''d/b.txt'' ''a.txt''),
     config_maxResults := Some 1\<rparr>"

definition relativeInclude :: "glob rawSearch" where
  "relativeInclude = listAll\<lparr>config_filePattern := Some ''d/b.txt'',
     config_includePattern := Some (WhenSibling ''d/b.txt'' ''a.txt''), config_maxResults := Some 1\<rparr>"

definition relativeIncludeEnd :: walker where
  "relativeIncludeEnd = \<lparr>isLimitHit = False, resultCount = 0, isCanceled = False,
     walkedPaths = [''/r/d''], results = [''/r/d/b.txt''], fastPathResults = [''/r/d/b.txt''],
     fsCalls = [Readdir ''/r'', Stat ''/r/d/b.txt'', Lstat ''/r/a.txt'', Lstat ''/r/d'',
       Readdir ''/r/d'', Lstat ''/r/d/b.txt''],
     callbacksRun = 6\<rparr>"

text \<open>
  The folder \<open>/c\<close> holds the folder \<open>sub\<close>, which holds \<open>up\<close>, a symbolic link to \<open>/c\<close>.
  Every path through the link exists: what follows \<open>/c\<close> names the folder itself (1),
  the folder \<open>sub\<close> (2) or the link (3), or nothing (0).
\<close>

function loopKind :: "string \<Rightarrow> nat" where
  "loopKind rest =
     (if rest = [] then 1
      else if rest = ''/sub'' then 2
      else if take 7 rest = ''/sub/up'' then (if drop 7 rest = [] then 3 else loopKind (drop 7 rest))
      else 0)"
  by pat_completeness auto
termination
  by (relation "measure length") auto

definition loopKindOf :: "string \<Rightarrow> nat" where
  "loopKindOf p = (if take 2 p = ''/c'' then loopKind (drop 2 p) else 0)"

definition loopFs :: "glob env" where
  "loopFs = posix\<lparr>
     fs_stat := (\<lambda>p. if loopKindOf p = 0 then Inl (Error ''ENOENT'') else Inr dirStats),
     fs_lstat := (\<lambda>p. if loopKindOf p = 0 then Inl (Error ''ENOENT'')
                      else if loopKindOf p = 3 then Inr linkStats else Inr dirStats),
     fs_readdir := (\<lambda>p. if loopKindOf p = 0 then Inl (Error ''ENOENT'')
                      else if loopKindOf p = 2 then Inr [''up''] else Inr [''sub'']),
     fs_realpath := (\<lambda>p. if loopKindOf p = 0 then Inl (Error ''ENOENT'')
                      else if loopKindOf p = 2 then Inr ''/c/sub'' else Inr ''/c'')\<rparr>"

text \<open>A search of the folder \<open>/c\<close> and the walker at its end; a search that names \<open>/r\<close> twice.\<close>

definition listLoop :: "glob rawSearch" where
  "listLoop = listAll\<lparr>config_rootFolders := [''/c'']\<rparr>"

definition twiceRoot :: "glob rawSearch" where
  "twiceRoot = listAll\<lparr>config_rootFolders := [''/r'', ''/r'']\<rparr>"


definition listLoopEnd :: walker where
  "listLoopEnd = \<lparr>isLimitHit = False, resultCount = 1, isCanceled = False,
     walkedPaths = [''/c/sub''], results = [''/c/sub/up''], fastPathResults = [],
     fsCalls = [Readdir ''/c'', Lstat ''/c/sub'', Readdir ''/c/sub'', Lstat ''/c/sub/up''],
     callbacksRun = 4\<rparr>"

text \<open>A search of the folder \<open>/r\<close> and of its folder \<open>d\<close>.\<close>

definition nestedRoots :: "glob rawSearch" where
  "nestedRoots = listAll\<lparr>config_rootFolders := [''/r'', ''/r/d'']\<rparr>"

subsection \<open>Notions used in the statements\<close>

fun isReaddir :: "fsop \<Rightarrow> bool" where
  "isReaddir (Readdir p) = True"
| "isReaddir c = False"

text \<open>The paths of the \<open>readdir\<close> calls issued, in their order.\<close>

definition readdirPaths :: "walker \<Rightarrow> string list" where
  "readdirPaths s = List.map_filter (\<lambda>c. case c of Readdir p \<Rightarrow> Some p | _ \<Rightarrow> None) (fsCalls s)"

text \<open>
  What \<open>realPathIfNeeded\<close> hands to its callback, and the path under which a directory
  entry is remembered as walked: what \<open>realPathIfNeeded\<close> hands on for what \<open>fs.lstat\<close>
  reports of it.
\<close>

definition realPathOf :: "'g env \<Rightarrow> string \<Rightarrow> stats \<Rightarrow> error + string" where
  "realPathOf E path lstat = (if isSymbolicLink lstat then fs_realpath E path else Inr path)"

definition recordedAs :: "'g env \<Rightarrow> string \<Rightarrow> error + string" where
  "recordedAs E path =
     (case fs_lstat E path of Inl err \<Rightarrow> Inl err | Inr lstat \<Rightarrow> realPathOf E path lstat)"

text \<open>An \<open>fs.realpath\<close> in flight is for a path that \<open>fs.lstat\<close> reports as a symbolic link.\<close>

definition linkFound :: "'g env \<Rightarrow> call \<Rightarrow> bool" where
  "linkFound E c =
     (case c of
        EntryRealpath currentPath relPath \<Rightarrow>
          (case fs_lstat E currentPath of Inl err \<Rightarrow> False | Inr lstat \<Rightarrow> isSymbolicLink lstat)
      | _ \<Rightarrow> True)"

text \<open>Every branch that has called back in a branch has called back with null.\<close>

fun nullOnly :: "task \<Rightarrow> bool" where
  "nullOnly (InFlight c) = True"
| "nullOnly (Called e) = (e = None)"
| "nullOnly (Parallel ts) = list_all nullOnly ts"

text \<open>
  \<open>steps E C s t\<close>: the walker \<open>t\<close> comes from \<open>s\<close> by callbacks starting, calls of
  \<open>matchFile\<close>, filesystem calls other than \<open>readdir\<close>, directory entries being
  remembered as walked and read, and results of the relative fast path.
\<close>

inductive steps :: "'g env \<Rightarrow> 'g rawSearch \<Rightarrow> walker \<Rightarrow> walker \<Rightarrow> bool"
  for E :: "'g env" and C :: "'g rawSearch" where
  steps_refl: "steps E C s s"
| steps_resume: "steps E C s t \<Longrightarrow> steps E C s (resume E t)"
| steps_callFs: "steps E C s t \<Longrightarrow> \<not> isReaddir c \<Longrightarrow> steps E C s (callFs c t)"
| steps_matchFile: "steps E C s t \<Longrightarrow> steps E C s (matchFile E C b a r t)"
| steps_enter: "steps E C s t \<Longrightarrow> realpath \<notin> set (walkedPaths t) \<Longrightarrow>
     recordedAs E currentPath = Inr realpath \<Longrightarrow>
     steps E C s (callFs (Readdir currentPath) (markWalked realpath t))"
| steps_fast: "steps E C s t \<Longrightarrow> steps E C s (fastPathResult p t)"

text \<open>The absolute fast path applies: what \<open>checkFilePatternAbsoluteMatch\<close> hands to its callback.\<close>

definition absoluteMatch :: "'g env \<Rightarrow> 'g rawSearch \<Rightarrow> bool" where
  "absoluteMatch E C =
     (case filePattern E C of None \<Rightarrow> False
      | Some p \<Rightarrow> p \<noteq> [] \<and> paths_isAbsolute E p \<and> existingFile (fs_stat E p))"

text \<open>The walker when \<open>walk\<close> turns to the root folders: the extra files are done, the root folders read.\<close>

definition rootsRead :: "'g env \<Rightarrow> 'g rawSearch \<Rightarrow> walker \<Rightarrow> walker" where
  "rootsRead E C s =
     fold (\<lambda>absolutePath. callFs (Readdir absolutePath)) (config_rootFolders C)
       (case config_extraFiles C of None \<Rightarrow> s | Some xs \<Rightarrow> fold (extraFile E C) xs s)"

text \<open>A call in flight for a root folder which can still yield a result of the relative fast path.\<close>

fun rootCall :: "call \<Rightarrow> bool" where
  "rootCall (RootReaddir absolutePath) = True"
| "rootCall (RelativeStat basePath files path) = True"
| "rootCall c = False"

text \<open>What the relative fast path yields for a root folder.\<close>

definition relativeMatch :: "'g env \<Rightarrow> 'g rawSearch \<Rightarrow> string \<Rightarrow> string option" where
  "relativeMatch E C basePath =
     (case filePattern E C of None \<Rightarrow> None
      | Some p \<Rightarrow>
          if p = [] \<or> paths_isAbsolute E p \<or> \<not> searchInPath E C then None
          else if existingFile (fs_stat E (paths_join E basePath p))
               then Some (paths_join E basePath p) else None)"

text \<open>A candidate passes the tests of \<open>matchFile\<close>.\<close>

definition passes :: "'g env \<Rightarrow> 'g rawSearch \<Rightarrow> string \<Rightarrow> string \<Rightarrow> bool" where
  "passes E C basename relativePath =
     (isFilePatternMatch E C basename relativePath \<and> includeMatch E C relativePath)"

text \<open>
  The counter, the limit flag and the results agree: the limit is hit exactly when the
  counter has gone beyond \<open>maxResults\<close>, and the results are as many as the counter says,
  less what has been counted beyond \<open>maxResults\<close>, and the results of the fast paths.
\<close>

definition counted :: "'g rawSearch \<Rightarrow> walker \<Rightarrow> bool" where
  "counted C s =
     (case maxResults C of
        None \<Rightarrow> \<not> isLimitHit s \<and> length (results s) = resultCount s + length (fastPathResults s)
      | Some N \<Rightarrow>
          isLimitHit s = (N < int (resultCount s) \<and> 0 < resultCount s) \<and>
          length (results s) = min (resultCount s) (nat N) + length (fastPathResults s))"

text \<open>
  A call in flight for a root folder is for one of the root folders of the search, and
  an \<open>fs.stat\<close> in flight is for the path the relative fast path examines.
\<close>

definition ofRoots :: "'g env \<Rightarrow> 'g rawSearch \<Rightarrow> call \<Rightarrow> bool" where
  "ofRoots E C c =
     (case c of
        RootReaddir absolutePath \<Rightarrow> absolutePath \<in> set (config_rootFolders C)
      | RelativeStat basePath files path \<Rightarrow>
          basePath \<in> set (config_rootFolders C) \<and> searchInPath E C \<and>
          (case filePattern E C of None \<Rightarrow> False
           | Some p \<Rightarrow> p \<noteq> [] \<and> \<not> paths_isAbsolute E p \<and> path = paths_join E basePath p)
      | _ \<Rightarrow> True)"


section \<open>Properties\<close>

subsection \<open>What each effect changes\<close>

lemma newWalker_fields [simp]:
  "isLimitHit newWalker = False" "resultCount newWalker = 0" "isCanceled newWalker = False"
  "walkedPaths newWalker = []" "results newWalker = []" "fastPathResults newWalker = []"
  "fsCalls newWalker = []" "callbacksRun newWalker = 0"
  by (simp_all add: newWalker_def)

lemma callFs_fields [simp]:
  "isLimitHit (callFs c s) = isLimitHit s"
  "resultCount (callFs c s) = resultCount s"
  "isCanceled (callFs c s) = isCanceled s"
  "walkedPaths (callFs c s) = walkedPaths s"
  "results (callFs c s) = results s"
  "fastPathResults (callFs c s) = fastPathResults s"
  "fsCalls (callFs c s) = fsCalls s @ [c]"
  "callbacksRun (callFs c s) = callbacksRun s"
  by (simp_all add: callFs_def)

lemma resume_fields [simp]:
  "isLimitHit (resume E s) = isLimitHit s"
  "resultCount (resume E s) = resultCount s"
  "isCanceled (resume E s) = (isCanceled s \<or> cancelAt E = Some (callbacksRun s))"
  "walkedPaths (resume E s) = walkedPaths s"
  "results (resume E s) = results s"
  "fastPathResults (resume E s) = fastPathResults s"
  "fsCalls (resume E s) = fsCalls s"
  "callbacksRun (resume E s) = Suc (callbacksRun s)"
  by (simp_all add: resume_def)

lemma onResult_fields [simp]:
  "isLimitHit (onResult p s) = isLimitHit s"
  "resultCount (onResult p s) = resultCount s"
  "isCanceled (onResult p s) = isCanceled s"
  "walkedPaths (onResult p s) = walkedPaths s"
  "results (onResult p s) = results s @ [p]"
  "fastPathResults (onResult p s) = fastPathResults s"
  "fsCalls (onResult p s) = fsCalls s"
  "callbacksRun (onResult p s) = callbacksRun s"
  by (simp_all add: onResult_def)

lemma fastPathResult_fields [simp]:
  "isLimitHit (fastPathResult p s) = isLimitHit s"
  "resultCount (fastPathResult p s) = resultCount s"
  "isCanceled (fastPathResult p s) = isCanceled s"
  "walkedPaths (fastPathResult p s) = walkedPaths s"
  "results (fastPathResult p s) = results s @ [p]"
  "fastPathResults (fastPathResult p s) = fastPathResults s @ [p]"
  "fsCalls (fastPathResult p s) = fsCalls s"
  "callbacksRun (fastPathResult p s) = callbacksRun s"
  by (simp_all add: fastPathResult_def)

lemma markWalked_fields [simp]:
  "isLimitHit (markWalked p s) = isLimitHit s"
  "resultCount (markWalked p s) = resultCount s"
  "isCanceled (markWalked p s) = isCanceled s"
  "walkedPaths (markWalked p s) = walkedPaths s @ [p]"
  "results (markWalked p s) = results s"
  "fastPathResults (markWalked p s) = fastPathResults s"
  "fsCalls (markWalked p s) = fsCalls s"
  "callbacksRun (markWalked p s) = callbacksRun s"
  by (simp_all add: markWalked_def)

lemma matchFile_fields [simp]:
  "isCanceled (matchFile E C b a r s) = isCanceled s"
  "walkedPaths (matchFile E C b a r s) = walkedPaths s"
  "fastPathResults (matchFile E C b a r s) = fastPathResults s"
  "fsCalls (matchFile E C b a r s) = fsCalls s"
  "callbacksRun (matchFile E C b a r s) = callbacksRun s"
  by (simp_all add: matchFile_def Let_def split: option.splits)

lemma stopped_fields [simp]:
  "stopped (callFs c s) = stopped s"
  "stopped (markWalked p s) = stopped s"
  "stopped (fastPathResult p s) = stopped s"
  "stopped (onResult p s) = stopped s"
  by (simp_all add: stopped_def)

subsection \<open>One callback runs: the other calls stay in flight\<close>

lemma complete_calls:
  "i < length (calls t) \<longrightarrow>
     snd (complete cb i t s) = snd (cb (calls t ! i) s) \<and>
     calls (fst (complete cb i t s))
       = take i (calls t) @ calls (fst (cb (calls t ! i) s)) @ drop (Suc i) (calls t)"
  "i < length (concat (map calls ts)) \<longrightarrow>
     snd (completeIn cb i ts s) = snd (cb (concat (map calls ts) ! i) s) \<and>
     concat (map calls (fst (completeIn cb i ts s)))
       = take i (concat (map calls ts)) @ calls (fst (cb (concat (map calls ts) ! i) s))
           @ drop (Suc i) (concat (map calls ts))"
proof (induction cb i t s and cb i ts s rule: complete_completeIn.induct)
  case (1 cb i c s)
  then show ?case by simp
next
  case (2 cb i e s)
  then show ?case by simp
next
  case (3 cb i ts s)
  then show ?case by (simp add: case_prod_beta)
next
  case (4 cb i s)
  then show ?case by simp
next
  case (5 cb i t ts s)
  show ?case
  proof (cases "i < length (calls t)")
    case True
    with 5(1) show ?thesis by (simp add: nth_append case_prod_beta)
  next
    case False
    with 5(2) show ?thesis
      by (simp add: nth_append Suc_diff_le case_prod_beta)
  qed
qed

lemma complete_nullOnly:
  "(\<And>c s. nullOnly (fst (cb c s))) \<Longrightarrow> nullOnly t \<Longrightarrow> nullOnly (fst (complete cb i t s))"
  "(\<And>c s. nullOnly (fst (cb c s))) \<Longrightarrow> list_all nullOnly ts
     \<Longrightarrow> list_all nullOnly (fst (completeIn cb i ts s))"
proof (induction cb i t s and cb i ts s rule: complete_completeIn.induct)
  case (1 cb i c s)
  then show ?case by simp
next
  case (2 cb i e s)
  then show ?case by simp
next
  case (3 cb i ts s)
  then show ?case by (simp add: case_prod_beta)
next
  case (4 cb i s)
  then show ?case by simp
next
  case (5 cb i t ts s)
  then show ?case by (simp add: case_prod_beta)
qed

lemma step_effect:
  assumes ne: "callsIn ts \<noteq> []" and st: "step E C ts s = (ts', s')"
  shows "\<exists>pre c post u. callsIn ts = pre @ c # post \<and> callback E C c s = (u, s')
     \<and> callsIn ts' = pre @ calls u @ post"
proof -
  let ?cs = "concat (map calls ts)"
  let ?i = "completes E (callbacksRun s) mod length ?cs"
  from ne have i: "?i < length ?cs" by (simp add: callsIn_def)
  from complete_calls(2)[of ?i ts "callback E C" s] i st
  have s': "s' = snd (callback E C (?cs ! ?i) s)"
    and c: "concat (map calls ts') = take ?i ?cs @ calls (fst (callback E C (?cs ! ?i) s)) @ drop (Suc ?i) ?cs"
    by (simp_all add: step_def callsIn_def)
  have "?cs = take ?i ?cs @ (?cs ! ?i) # drop (Suc ?i) ?cs"
    using i by (simp add: id_take_nth_drop[symmetric])
  with s' c show ?thesis
    unfolding callsIn_def by (metis prod.collapse)
qed

lemma doWalk_done_None: "\<forall>e \<in> set es. e = None \<Longrightarrow> doWalk_done es = None"
  by (auto simp: doWalk_done_def parallel_errors_def list_ex_iff)

lemma walk_done_None: "\<forall>e \<in> set es. e = None \<Longrightarrow> walk_done es s = (None, isLimitHit s)"
  by (auto simp: walk_done_def parallel_errors_def list_ex_iff)

lemma nullOnly_handedOn: "nullOnly t \<Longrightarrow> handedOn t = None"
proof (induction t)
  case (Parallel ts)
  then show ?case by (auto simp: list_all_iff intro!: doWalk_done_None)
qed simp_all

lemma doWalk_nullOnly: "nullOnly (fst (doWalk E C a rel files s))"
  by (auto simp: doWalk_def list_all_iff)

lemma callback_nullOnly: "nullOnly (fst (callback E C c s))"
  by (auto simp: callback_def rootReaddirCallback_def relativeMatchCallback_def
      lstatCallback_def realpathCallback_def readdirCallback_def doWalk_nullOnly Let_def
      split: call.splits sum.splits prod.splits option.splits)

text \<open>
  What holds of the calls in flight and of the walker when the root folders have been
  read, and is kept by every callback, holds at the end; the error handed to \<open>done\<close> is
  null.
\<close>

lemma run_invariant:
  assumes st: "\<And>pre c post u s s1. J (pre @ c # post) s \<Longrightarrow> callback E C c s = (u, s1)
      \<Longrightarrow> J (pre @ calls u @ post) s1"
  shows "run n E C ts s = Some (d, s') \<Longrightarrow> J (callsIn ts) s \<Longrightarrow> list_all nullOnly ts \<Longrightarrow>
     J [] s' \<and> d = (None, isLimitHit s')"
proof (induction n arbitrary: ts s)
  case 0
  then have e: "callsIn ts = []" and d: "d = walk_done (map handedOn ts) s" and s: "s' = s"
    by (auto split: if_splits)
  from 0(3) have "\<forall>e \<in> set (map handedOn ts). e = None"
    by (auto simp: list_all_iff nullOnly_handedOn)
  with e d s 0(2) show ?case by (simp add: walk_done_None)
next
  case (Suc n)
  show ?case
  proof (cases "callsIn ts = []")
    case True
    with Suc.prems have d: "d = walk_done (map handedOn ts) s" and s: "s' = s" by auto
    from Suc.prems(3) have "\<forall>e \<in> set (map handedOn ts). e = None"
      by (auto simp: list_all_iff nullOnly_handedOn)
    with True d s Suc.prems(2) show ?thesis by (simp add: walk_done_None)
  next
    case False
    obtain ts1 s1 where s1: "step E C ts s = (ts1, s1)" by (cases "step E C ts s")
    with False Suc.prems(1) have r: "run n E C ts1 s1 = Some (d, s')" by simp
    from step_effect[OF False s1] obtain pre c post u where
      c: "callsIn ts = pre @ c # post" "callback E C c s = (u, s1)"
        "callsIn ts1 = pre @ calls u @ post" by blast
    from st[OF _ c(2), of pre post] Suc.prems(2) c(1,3) have J: "J (callsIn ts1) s1" by simp
    from complete_nullOnly(2)[of "callback E C" ts
        "completes E (callbacksRun s) mod length (callsIn ts)" s, OF callback_nullOnly Suc.prems(3)] s1
    have "list_all nullOnly ts1" by (simp add: step_def)
    from Suc.IH[OF r J this] show ?thesis .
  qed
qed


subsection \<open>Every callback is a sequence of primitive changes\<close>

lemma fold_callFs_steps:
  "steps E C s0 s \<Longrightarrow> \<forall>x \<in> set xs. \<not> isReaddir (f x) \<Longrightarrow>
     steps E C s0 (fold (\<lambda>x. callFs (f x)) xs s)"
  by (induction xs arbitrary: s) (auto intro: steps_callFs)

lemma doWalk_steps:
  assumes "steps E C s0 s"
  shows "steps E C s0 (snd (doWalk E C a rel files s))"
    and "\<forall>c \<in> set (calls (fst (doWalk E C a rel files s))). linkFound E c"
  using assms
  by (auto simp: doWalk_def issueLstats_def linkFound_def intro!: fold_callFs_steps)

lemma realpathCallback_steps:
  assumes s: "steps E C s0 s" and r: "r = recordedAs E cp"
  shows "steps E C s0 (snd (realpathCallback cp rel r s))"
    and "\<forall>c \<in> set (calls (fst (realpathCallback cp rel r s))). linkFound E c"
  using s r
  by (auto simp: realpathCallback_def linkFound_def intro: steps_enter split: sum.splits)

lemma lstatCallback_steps:
  assumes s: "steps E C s0 s"
  shows "steps E C s0 (snd (lstatCallback E C a rel f (fs_lstat E (paths_join E a f)) s))"
    and "\<forall>c \<in> set (calls (fst (lstatCallback E C a rel f (fs_lstat E (paths_join E a f)) s))).
           linkFound E c"
proof -
  let ?cp = "paths_join E a f"
  have "steps E C s0 (snd (lstatCallback E C a rel f (fs_lstat E ?cp) s))
     \<and> (\<forall>c \<in> set (calls (fst (lstatCallback E C a rel f (fs_lstat E ?cp) s))). linkFound E c)"
  proof (cases "fs_lstat E ?cp")
    case (Inl err)
    with s show ?thesis by (simp add: lstatCallback_def)
  next
    case (Inr lstat)
    show ?thesis
    proof (cases "isDirectory lstat \<and> \<not> stopped s")
      case False
      with s Inr show ?thesis
        by (auto simp: lstatCallback_def Let_def intro: steps_matchFile)
    next
      case True
      show ?thesis
      proof (cases "isSymbolicLink lstat")
        case link: True
        with s Inr True show ?thesis
          by (auto simp: lstatCallback_def Let_def realPathIfNeeded_def linkFound_def
              intro: steps_callFs)
      next
        case nolink: False
        then have r: "Inr ?cp = recordedAs E ?cp"
          using Inr by (simp add: recordedAs_def realPathOf_def)
        from realpathCallback_steps[OF s r] Inr True nolink show ?thesis
          by (simp add: lstatCallback_def Let_def realPathIfNeeded_def)
      qed
    qed
  qed
  then show "steps E C s0 (snd (lstatCallback E C a rel f (fs_lstat E ?cp) s))"
    and "\<forall>c \<in> set (calls (fst (lstatCallback E C a rel f (fs_lstat E ?cp) s))). linkFound E c"
    by simp_all
qed

lemma relativeMatchCallback_steps:
  assumes s: "steps E C s0 s"
  shows "steps E C s0 (snd (relativeMatchCallback E C root files m s))"
    and "\<forall>c \<in> set (calls (fst (relativeMatchCallback E C root files m s))). linkFound E c"
proof -
  have "steps E C s0 (case m of None \<Rightarrow> s | Some x \<Rightarrow> fastPathResult x s)"
    using s by (auto split: option.splits intro: steps_fast)
  from doWalk_steps[OF this] s
  show "steps E C s0 (snd (relativeMatchCallback E C root files m s))"
    and "\<forall>c \<in> set (calls (fst (relativeMatchCallback E C root files m s))). linkFound E c"
    by (simp_all add: relativeMatchCallback_def)
qed

lemma rootReaddirCallback_steps:
  assumes s: "steps E C s0 s"
  shows "steps E C s0 (snd (rootReaddirCallback E C root r s))"
    and "\<forall>c \<in> set (calls (fst (rootReaddirCallback E C root r s))). linkFound E c"
proof -
  have "steps E C s0 (snd (rootReaddirCallback E C root r s))
     \<and> (\<forall>c \<in> set (calls (fst (rootReaddirCallback E C root r s))). linkFound E c)"
  proof (cases "checkFilePatternRelativeMatch E C root s")
    case (Pair x s1)
    show ?thesis
    proof (cases x)
      case (Inl m)
      with Pair have "s1 = s" and "m = None"
        by (auto simp: checkFilePatternRelativeMatch_def Let_def split: option.splits if_splits)
      with relativeMatchCallback_steps[OF s, of root _ None] s Pair Inl show ?thesis
        by (auto simp: rootReaddirCallback_def split: sum.splits)
    next
      case (Inr path)
      with Pair have "s1 = callFs (Stat path) s"
        by (auto simp: checkFilePatternRelativeMatch_def Let_def split: option.splits if_splits)
      with s Pair Inr show ?thesis
        by (auto simp: rootReaddirCallback_def linkFound_def intro: steps_callFs split: sum.splits)
    qed
  qed
  then show "steps E C s0 (snd (rootReaddirCallback E C root r s))"
    and "\<forall>c \<in> set (calls (fst (rootReaddirCallback E C root r s))). linkFound E c"
    by simp_all
qed

lemma readdirCallback_steps:
  assumes s: "steps E C s0 s"
  shows "steps E C s0 (snd (readdirCallback E C cp rel r s))"
    and "\<forall>c \<in> set (calls (fst (readdirCallback E C cp rel r s))). linkFound E c"
  using doWalk_steps[OF s] s
  by (auto simp: readdirCallback_def split: sum.splits)

lemma callback_steps:
  assumes s: "steps E C s0 s" and l: "linkFound E c"
  shows "steps E C s0 (snd (callback E C c s))"
    and "\<forall>c' \<in> set (calls (fst (callback E C c s))). linkFound E c'"
proof -
  from s have rs: "steps E C s0 (resume E s)" by (rule steps_resume)
  have "steps E C s0 (snd (callback E C c s))
     \<and> (\<forall>c' \<in> set (calls (fst (callback E C c s))). linkFound E c')"
  proof (cases c)
    case (RootReaddir root)
    with rootReaddirCallback_steps[OF rs] show ?thesis by (simp add: callback_def)
  next
    case (RelativeStat root files path)
    with relativeMatchCallback_steps[OF rs] show ?thesis by (simp add: callback_def)
  next
    case (EntryLstat a rel f)
    with lstatCallback_steps[OF rs] show ?thesis by (simp add: callback_def)
  next
    case (EntryRealpath cp rel)
    with l have "fs_realpath E cp = recordedAs E cp"
      by (auto simp: linkFound_def recordedAs_def realPathOf_def split: sum.splits)
    from realpathCallback_steps[OF rs this] EntryRealpath show ?thesis
      by (simp add: callback_def)
  next
    case (EntryReaddir cp rel)
    with readdirCallback_steps[OF rs] show ?thesis by (simp add: callback_def)
  qed
  then show "steps E C s0 (snd (callback E C c s))"
    and "\<forall>c' \<in> set (calls (fst (callback E C c s))). linkFound E c'"
    by simp_all
qed

lemma run_steps:
  assumes r: "run n E C ts s = Some (d, s')" and l: "\<forall>c \<in> set (callsIn ts). linkFound E c"
    and nl: "list_all nullOnly ts"
  shows "steps E C s s' \<and> d = (None, isLimitHit s')"
proof -
  define J where "J = (\<lambda>cs t. steps E C s t \<and> (\<forall>c \<in> set cs. linkFound E c))"
  have st: "J (pre @ calls u @ post) t1"
    if J: "J (pre @ c # post) t" and cb: "callback E C c t = (u, t1)" for pre c post u t t1
  proof -
    from J have s: "steps E C s t" and c: "linkFound E c"
      and o: "\<forall>x \<in> set pre \<union> set post. linkFound E x"
      by (simp_all add: J_def)
    from callback_steps[OF s c] cb have "steps E C s t1" "\<forall>x \<in> set (calls u). linkFound E x"
      by simp_all
    with o show ?thesis unfolding J_def by auto
  qed
  have J0: "J (callsIn ts) s" using l by (simp add: J_def steps_refl)
  have "J [] s' \<and> d = (None, isLimitHit s')"
  proof (rule run_invariant[where J = J and E = E and C = C and n = n and ts = ts and s = s])
    fix pre c post u t t1
    assume "J (pre @ c # post) t" and "callback E C c t = (u, t1)"
    then show "J (pre @ calls u @ post) t1" by (rule st)
  qed (fact r J0 nl)+
  then show ?thesis by (simp add: J_def)
qed

subsection \<open>A search is the absolute fast path, or a run from the root folders read\<close>

lemma extraFile_fields [simp]:
  "isCanceled (extraFile E C x s) = isCanceled s"
  "walkedPaths (extraFile E C x s) = walkedPaths s"
  "fastPathResults (extraFile E C x s) = fastPathResults s"
  "fsCalls (extraFile E C x s) = fsCalls s"
  "callbacksRun (extraFile E C x s) = callbacksRun s"
  by (simp_all add: extraFile_def)

lemma fold_extraFile_fields [simp]:
  "isCanceled (fold (extraFile E C) xs s) = isCanceled s"
  "walkedPaths (fold (extraFile E C) xs s) = walkedPaths s"
  "fastPathResults (fold (extraFile E C) xs s) = fastPathResults s"
  "fsCalls (fold (extraFile E C) xs s) = fsCalls s"
  "callbacksRun (fold (extraFile E C) xs s) = callbacksRun s"
  by (induction xs arbitrary: s) simp_all

lemma fold_rootRead_fields [simp]:
  "isLimitHit (fold (\<lambda>absolutePath. callFs (Readdir absolutePath)) xs s) = isLimitHit s"
  "resultCount (fold (\<lambda>absolutePath. callFs (Readdir absolutePath)) xs s) = resultCount s"
  "isCanceled (fold (\<lambda>absolutePath. callFs (Readdir absolutePath)) xs s) = isCanceled s"
  "walkedPaths (fold (\<lambda>absolutePath. callFs (Readdir absolutePath)) xs s) = walkedPaths s"
  "results (fold (\<lambda>absolutePath. callFs (Readdir absolutePath)) xs s) = results s"
  "fastPathResults (fold (\<lambda>absolutePath. callFs (Readdir absolutePath)) xs s) = fastPathResults s"
  "callbacksRun (fold (\<lambda>absolutePath. callFs (Readdir absolutePath)) xs s) = callbacksRun s"
  "fsCalls (fold (\<lambda>absolutePath. callFs (Readdir absolutePath)) xs s) = fsCalls s @ map Readdir xs"
  by (induction xs arbitrary: s) simp_all

lemma rootsRead_fields [simp]:
  "isCanceled (rootsRead E C s) = isCanceled s"
  "walkedPaths (rootsRead E C s) = walkedPaths s"
  "fastPathResults (rootsRead E C s) = fastPathResults s"
  "callbacksRun (rootsRead E C s) = callbacksRun s"
  "fsCalls (rootsRead E C s) = fsCalls s @ map Readdir (config_rootFolders C)"
  by (simp_all add: rootsRead_def split: option.splits)

text \<open>
  A search ends at once, canceled or on the absolute fast path, or it is the run of the
  branches of the root folders from the walker that has seen the extra files and has
  read the root folders.
\<close>

lemma search_cases:
  assumes w: "search n E C = Some ((err, hit), s)"
  shows "err = None \<and> hit = isLimitHit s \<and>
     ((\<exists>p. filePattern E C = Some p \<and> p \<noteq> [] \<and> paths_isAbsolute E p \<and> cancelAt E = Some 0
          \<and> s = resume E (callFs (Stat p) newWalker))
      \<or> (\<exists>p. filePattern E C = Some p \<and> absoluteMatch E C \<and> cancelAt E \<noteq> Some 0
          \<and> s = fastPathResult p (resume E (callFs (Stat p) newWalker)))
      \<or> (\<exists>s1. \<not> absoluteMatch E C \<and> \<not> isCanceled s1
          \<and> (s1 = newWalker \<or> (\<exists>p. s1 = resume E (callFs (Stat p) newWalker)))
          \<and> run n E C (map (\<lambda>absolutePath. InFlight (RootReaddir absolutePath))
                (config_rootFolders C)) (rootsRead E C s1) = Some ((err, hit), s)))"
proof -
  obtain ex s1 where ck: "checkFilePatternAbsoluteMatch E C newWalker = (ex, s1)"
    by (cases "checkFilePatternAbsoluteMatch E C newWalker")
  from w ck have a: "absoluteMatchCallback n E C (config_rootFolders C) (config_extraFiles C) ex s1
      = Some ((err, hit), s)"
    by (simp add: search_def walk_def)
  from ck have ex: "ex = absoluteMatch E C"
    by (auto simp: checkFilePatternAbsoluteMatch_def absoluteMatch_def split: option.splits if_splits)
  from ck have s1: "s1 = newWalker \<or>
      (\<exists>p. filePattern E C = Some p \<and> p \<noteq> [] \<and> paths_isAbsolute E p
         \<and> s1 = resume E (callFs (Stat p) newWalker))"
    by (auto simp: checkFilePatternAbsoluteMatch_def split: option.splits if_splits)
  show ?thesis
  proof (cases "isCanceled s1")
    case True
    with a have "err = None" "hit = isLimitHit s" "s = s1"
      by (auto simp: absoluteMatchCallback_def)
    with True s1 show ?thesis by auto
  next
    case nc: False
    show ?thesis
    proof (cases ex)
      case True
      with ex obtain p where p: "filePattern E C = Some p" "p \<noteq> []" "paths_isAbsolute E p"
        by (auto simp: absoluteMatch_def split: option.splits)
      with ck have s1': "s1 = resume E (callFs (Stat p) newWalker)"
        by (simp add: checkFilePatternAbsoluteMatch_def)
      with nc have "cancelAt E \<noteq> Some 0" by simp
      moreover from a nc True p have "err = None" "hit = isLimitHit s" "s = fastPathResult p s1"
        by (auto simp: absoluteMatchCallback_def Let_def)
      ultimately show ?thesis using p s1' True ex by auto
    next
      case False
      with a nc have r: "run n E C (map (\<lambda>absolutePath. InFlight (RootReaddir absolutePath))
            (config_rootFolders C)) (rootsRead E C s1) = Some ((err, hit), s)"
        by (simp add: absoluteMatchCallback_def Let_def rootsRead_def)
      have "steps E C (rootsRead E C s1) s \<and> (err, hit) = (None, isLimitHit s)"
        by (rule run_steps[OF r]) (simp_all add: callsIn_def linkFound_def list_all_iff)
      with False ex nc r s1 show ?thesis by auto
    qed
  qed
qed


subsection \<open>What a callback changes of the counter, the limit flag and the results\<close>

lemma fold_callFs_fields [simp]:
  "isLimitHit (fold (\<lambda>x. callFs (f x)) xs s) = isLimitHit s"
  "resultCount (fold (\<lambda>x. callFs (f x)) xs s) = resultCount s"
  "isCanceled (fold (\<lambda>x. callFs (f x)) xs s) = isCanceled s"
  "walkedPaths (fold (\<lambda>x. callFs (f x)) xs s) = walkedPaths s"
  "results (fold (\<lambda>x. callFs (f x)) xs s) = results s"
  "fastPathResults (fold (\<lambda>x. callFs (f x)) xs s) = fastPathResults s"
  "callbacksRun (fold (\<lambda>x. callFs (f x)) xs s) = callbacksRun s"
  "fsCalls (fold (\<lambda>x. callFs (f x)) xs s) = fsCalls s @ map f xs"
  by (induction xs arbitrary: s) simp_all

lemma doWalk_fields [simp]:
  "isLimitHit (snd (doWalk E C a rel files s)) = isLimitHit s"
  "resultCount (snd (doWalk E C a rel files s)) = resultCount s"
  "isCanceled (snd (doWalk E C a rel files s)) = isCanceled s"
  "walkedPaths (snd (doWalk E C a rel files s)) = walkedPaths s"
  "results (snd (doWalk E C a rel files s)) = results s"
  "fastPathResults (snd (doWalk E C a rel files s)) = fastPathResults s"
  "callbacksRun (snd (doWalk E C a rel files s)) = callbacksRun s"
  by (simp_all add: doWalk_def issueLstats_def)

lemma complete_none:
  "calls t = [] \<longrightarrow> complete cb i t s = (t, s)"
  "length (concat (map calls ts)) \<le> i \<longrightarrow> completeIn cb i ts s = (ts, s)"
proof (induction cb i t s and cb i ts s rule: complete_completeIn.induct)
  case (3 cb i ts s)
  show ?case
  proof
    assume a: "calls (Parallel ts) = []"
    have "length (calls (Parallel ts)) \<le> i" unfolding a by simp
    then have "length (concat (map calls ts)) \<le> i" by (simp only: calls.simps)
    with 3 show "complete cb i (Parallel ts) s = (Parallel ts, s)" by simp
  qed
next
  case (5 cb i t ts s)
  then show ?case by simp
qed simp_all

lemma step_cases:
  "snd (step E C ts s) = s \<or> (\<exists>c \<in> set (callsIn ts). snd (step E C ts s) = snd (callback E C c s))"
proof (cases "callsIn ts = []")
  case True
  have "length (callsIn ts) \<le> completes E (callbacksRun s) mod length (callsIn ts)"
    unfolding True by simp
  then have "length (concat (map calls ts)) \<le> completes E (callbacksRun s) mod length (callsIn ts)"
    by (simp only: callsIn_def)
  with complete_none(2)[of ts "completes E (callbacksRun s) mod length (callsIn ts)" "callback E C" s]
  show ?thesis by (simp add: step_def)
next
  case False
  obtain ts' s' where st: "step E C ts s = (ts', s')" by (cases "step E C ts s")
  from step_effect[OF False st] st show ?thesis by force
qed

text \<open>
  A callback leaves the counter, the limit flag and the results as they are, or it is
  the callback of the \<open>fs.lstat\<close> of a file and makes of them what \<open>matchFile\<close> makes, or
  it is the callback of the \<open>fs.stat\<close> of the relative fast path and delivers the path.
\<close>

lemma callback_frame:
  "(resultCount (snd (callback E C c s)) = resultCount s
      \<and> isLimitHit (snd (callback E C c s)) = isLimitHit s
      \<and> results (snd (callback E C c s)) = results s
      \<and> fastPathResults (snd (callback E C c s)) = fastPathResults s)
   \<or> (\<exists>a rel f. c = EntryLstat a rel f
         \<and> snd (callback E C c s)
             = matchFile E C f (paths_join E a f) (relativeFilePath rel f) (resume E s))
   \<or> (\<exists>b files path. c = RelativeStat b files path \<and> existingFile (fs_stat E path)
         \<and> \<not> stopped (resume E s)
         \<and> resultCount (snd (callback E C c s)) = resultCount s
         \<and> isLimitHit (snd (callback E C c s)) = isLimitHit s
         \<and> results (snd (callback E C c s)) = results s @ [path]
         \<and> fastPathResults (snd (callback E C c s)) = fastPathResults s @ [path])"
proof (cases c)
  case (RootReaddir root)
  then show ?thesis
    by (auto simp: callback_def rootReaddirCallback_def relativeMatchCallback_def
        checkFilePatternRelativeMatch_def Let_def split: sum.splits option.splits prod.splits)
next
  case (RelativeStat b files path)
  then show ?thesis
    by (auto simp: callback_def relativeMatchCallback_def relativeStatResult_def)
next
  case (EntryLstat a rel f)
  then show ?thesis
    by (auto simp: callback_def lstatCallback_def realpathCallback_def realPathIfNeeded_def Let_def
        split: sum.splits)
next
  case (EntryRealpath cp rel)
  then show ?thesis
    by (auto simp: callback_def realpathCallback_def split: sum.splits)
next
  case (EntryReaddir cp rel)
  then show ?thesis
    by (auto simp: callback_def readdirCallback_def split: sum.splits)
qed

lemma matchFile_counted: "counted C s \<Longrightarrow> counted C (matchFile E C b a r s)"
  by (auto simp: counted_def matchFile_def Let_def onResult_def split: option.splits)

lemma counted_cong:
  "resultCount t = resultCount s \<Longrightarrow> isLimitHit t = isLimitHit s \<Longrightarrow>
   length (results t) + length (fastPathResults s) = length (results s) + length (fastPathResults t) \<Longrightarrow>
   counted C t = counted C s"
  by (auto simp: counted_def split: option.splits)

lemma callback_counted: "counted C s \<Longrightarrow> counted C (snd (callback E C c s))"
  using callback_frame[of E C c s]
proof (elim disjE exE conjE)
  fix a rel f
  assume "counted C s" and "snd (callback E C c s)
      = matchFile E C f (paths_join E a f) (relativeFilePath rel f) (resume E s)"
  moreover have "counted C (resume E s) = counted C s" by (rule counted_cong) simp_all
  ultimately show ?thesis by (simp add: matchFile_counted)
next
  fix b files path
  assume "counted C s" and "resultCount (snd (callback E C c s)) = resultCount s"
    and "isLimitHit (snd (callback E C c s)) = isLimitHit s"
    and "results (snd (callback E C c s)) = results s @ [path]"
    and "fastPathResults (snd (callback E C c s)) = fastPathResults s @ [path]"
  then show ?thesis using counted_cong[of "snd (callback E C c s)" s C] by simp
next
  assume "counted C s" and "resultCount (snd (callback E C c s)) = resultCount s"
    and "isLimitHit (snd (callback E C c s)) = isLimitHit s"
    and "results (snd (callback E C c s)) = results s"
    and "fastPathResults (snd (callback E C c s)) = fastPathResults s"
  then show ?thesis using counted_cong[of "snd (callback E C c s)" s C] by simp
qed

lemma extraFile_counted: "counted C s \<Longrightarrow> counted C (extraFile E C x s)"
  by (simp add: extraFile_def matchFile_counted)

lemma step_counted: "counted C s \<Longrightarrow> counted C (snd (step E C ts s))"
  using step_cases[of E C ts s] by (auto simp: callback_counted)

lemma matchFile_mono:
  "resultCount s \<le> resultCount (matchFile E C b a r s)"
  "isLimitHit s \<Longrightarrow> isLimitHit (matchFile E C b a r s)"
  "\<exists>ys. results (matchFile E C b a r s) = results s @ ys"
  by (auto simp: matchFile_def Let_def onResult_def split: option.splits)

lemma callback_mono: "resultCount s \<le> resultCount (snd (callback E C c s))"
  using callback_frame[of E C c s]
    matchFile_mono(1)[of "resume E s" E C]
  by (elim disjE exE conjE) simp_all

lemma step_mono: "resultCount s \<le> resultCount (snd (step E C ts s))"
  using step_cases[of E C ts s] by (auto simp: callback_mono)

lemma run_mono: "run n E C ts s = Some (d, s') \<Longrightarrow> resultCount s \<le> resultCount s'"
proof (induction n arbitrary: ts s)
  case 0
  then show ?case by (auto split: if_splits)
next
  case (Suc n)
  show ?case
  proof (cases "callsIn ts = []")
    case True
    with Suc.prems show ?thesis by auto
  next
    case False
    obtain ts1 s1 where s1: "step E C ts s = (ts1, s1)" by (cases "step E C ts s")
    with False Suc.prems have "run n E C ts1 s1 = Some (d, s')" by simp
    from Suc.IH[OF this] step_mono[of s E C ts] s1 show ?thesis by simp
  qed
qed

lemma run_counted: "run n E C ts s = Some (d, s') \<Longrightarrow> counted C s \<Longrightarrow> counted C s'"
proof (induction n arbitrary: ts s)
  case 0
  then show ?case by (auto split: if_splits)
next
  case (Suc n)
  show ?case
  proof (cases "callsIn ts = []")
    case True
    with Suc.prems show ?thesis by auto
  next
    case False
    obtain ts1 s1 where s1: "step E C ts s = (ts1, s1)" by (cases "step E C ts s")
    with False Suc.prems have r: "run n E C ts1 s1 = Some (d, s')" by simp
    from step_counted[OF Suc.prems(2), of E ts] s1 have "counted C s1" by simp
    from Suc.IH[OF r this] show ?thesis .
  qed
qed

lemma fold_extraFile_counted: "counted C s \<Longrightarrow> counted C (fold (extraFile E C) xs s)"
  by (induction xs arbitrary: s) (simp_all add: extraFile_counted)

lemma fold_extraFile_mono: "resultCount s \<le> resultCount (fold (extraFile E C) xs s)"
proof (induction xs arbitrary: s)
  case (Cons x xs)
  have "resultCount s \<le> resultCount (extraFile E C x s)"
    by (simp add: extraFile_def matchFile_mono)
  with Cons[of "extraFile E C x s"] show ?case by simp
qed simp

lemma walk_counted:
  assumes w: "walk n E C roots extra s0 = Some (d, s)" and c: "counted C s0"
  shows "counted C s"
proof -
  obtain ex s1 where ck: "checkFilePatternAbsoluteMatch E C s0 = (ex, s1)"
    by (cases "checkFilePatternAbsoluteMatch E C s0")
  then have "counted C s1 = counted C s0"
    by (intro counted_cong)
       (auto simp: checkFilePatternAbsoluteMatch_def split: option.splits if_splits)
  with c have c1: "counted C s1" by simp
  from w ck have a: "absoluteMatchCallback n E C roots extra ex s1 = Some (d, s)"
    by (simp add: walk_def)
  show ?thesis
  proof (cases "isCanceled s1 \<or> ex")
    case True
    with a have "s = s1 \<or> (\<exists>p. s = fastPathResult p s1)"
      by (auto simp: absoluteMatchCallback_def Let_def split: option.splits if_splits)
    then show ?thesis
    proof
      assume "s = s1" with c1 show ?thesis by simp
    next
      assume "\<exists>p. s = fastPathResult p s1"
      then obtain p where "s = fastPathResult p s1" ..
      then have "counted C s = counted C s1" by (intro counted_cong) simp_all
      with c1 show ?thesis by simp
    qed
  next
    case False
    let ?s2 = "case extra of None \<Rightarrow> s1 | Some xs \<Rightarrow> fold (extraFile E C) xs s1"
    let ?s3 = "fold (\<lambda>absolutePath. callFs (Readdir absolutePath)) roots ?s2"
    from c1 have "counted C ?s2" by (auto split: option.splits intro: fold_extraFile_counted)
    moreover have "counted C ?s3 = counted C ?s2" by (rule counted_cong) simp_all
    ultimately have "counted C ?s3" by simp
    moreover from a False have "run n E C (map (\<lambda>absolutePath. InFlight (RootReaddir absolutePath)) roots) ?s3
        = Some (d, s)"
      by (simp add: absoluteMatchCallback_def Let_def)
    ultimately show ?thesis by (rule run_counted[rotated])
  qed
qed

lemma walk_mono:
  assumes w: "walk n E C roots extra s0 = Some (d, s)"
  shows "resultCount s0 \<le> resultCount s"
proof -
  obtain ex s1 where ck: "checkFilePatternAbsoluteMatch E C s0 = (ex, s1)"
    by (cases "checkFilePatternAbsoluteMatch E C s0")
  then have r1: "resultCount s1 = resultCount s0"
    by (auto simp: checkFilePatternAbsoluteMatch_def split: option.splits if_splits)
  from w ck have a: "absoluteMatchCallback n E C roots extra ex s1 = Some (d, s)"
    by (simp add: walk_def)
  show ?thesis
  proof (cases "isCanceled s1 \<or> ex")
    case True
    with a have "s = s1 \<or> (\<exists>p. s = fastPathResult p s1)"
      by (auto simp: absoluteMatchCallback_def Let_def split: option.splits if_splits)
    with r1 show ?thesis by auto
  next
    case False
    let ?s2 = "case extra of None \<Rightarrow> s1 | Some xs \<Rightarrow> fold (extraFile E C) xs s1"
    let ?s3 = "fold (\<lambda>absolutePath. callFs (Readdir absolutePath)) roots ?s2"
    have "resultCount s1 \<le> resultCount ?s2"
      by (auto split: option.splits intro: fold_extraFile_mono)
    moreover from a False have "run n E C (map (\<lambda>absolutePath. InFlight (RootReaddir absolutePath)) roots) ?s3
        = Some (d, s)"
      by (simp add: absoluteMatchCallback_def Let_def)
    from run_mono[OF this] have "resultCount ?s2 \<le> resultCount s" by simp
    ultimately show ?thesis using r1 by simp
  qed
qed


subsection \<open>The results of the relative fast path\<close>

lemma doWalk_calls:
  "calls (fst (doWalk E C a rel files s))
     = map (EntryLstat a rel) (filter (entryProceeds E C rel files s) files)"
proof -
  have "concat (map (\<lambda>f. calls (if P f then InFlight (EntryLstat a rel f) else Called None)) xs)
      = map (EntryLstat a rel) (filter P xs)" for P and xs :: "string list"
    by (induction xs) simp_all
  then show ?thesis by (simp add: doWalk_def comp_def)
qed

lemma relativeStatResult_eq:
  assumes "ofRoots E C (RelativeStat b files path)"
  shows "relativeStatResult path (fs_stat E path) = relativeMatch E C b"
  using assms
  by (auto simp: ofRoots_def relativeStatResult_def relativeMatch_def split: option.splits)

lemma callback_fast:
  assumes o: "ofRoots E C c"
  shows "(\<forall>c' \<in> set (calls (fst (callback E C c s))). ofRoots E C c')
     \<and> length (fastPathResults (snd (callback E C c s)))
          + length (filter rootCall (calls (fst (callback E C c s))))
        \<le> length (fastPathResults s) + (if rootCall c then 1 else 0)
     \<and> (\<forall>m \<in> set (fastPathResults (snd (callback E C c s))).
          m \<in> set (fastPathResults s)
          \<or> (\<exists>root \<in> set (config_rootFolders C). relativeMatch E C root = Some m))"
proof (cases c)
  case (RootReaddir root)
  with o have r: "root \<in> set (config_rootFolders C)" by (simp add: ofRoots_def)
  show ?thesis
  proof (cases "fs_readdir E root")
    case (Inl err)
    with RootReaddir show ?thesis by (simp add: callback_def rootReaddirCallback_def)
  next
    case (Inr files)
    with RootReaddir r show ?thesis
      by (auto simp: callback_def rootReaddirCallback_def relativeMatchCallback_def
          checkFilePatternRelativeMatch_def Let_def doWalk_calls ofRoots_def
          split: option.splits)
  qed
next
  case (RelativeStat b files path)
  from relativeStatResult_eq[OF o[unfolded RelativeStat]] o RelativeStat show ?thesis
    by (auto simp: callback_def relativeMatchCallback_def doWalk_calls ofRoots_def
        split: option.splits)
next
  case (EntryLstat a rel f)
  then show ?thesis
    by (auto simp: callback_def lstatCallback_def realpathCallback_def realPathIfNeeded_def Let_def
        ofRoots_def split: sum.splits)
next
  case (EntryRealpath cp rel)
  then show ?thesis
    by (auto simp: callback_def realpathCallback_def ofRoots_def split: sum.splits)
next
  case (EntryReaddir cp rel)
  then show ?thesis
    by (auto simp: callback_def readdirCallback_def doWalk_calls ofRoots_def split: sum.splits)
qed

lemma run_fast:
  assumes r: "run n E C ts s = Some (d, s')"
    and o: "\<forall>c \<in> set (callsIn ts). ofRoots E C c"
    and nl: "list_all nullOnly ts"
    and l: "length (fastPathResults s) + length (filter rootCall (callsIn ts)) \<le> k"
    and m: "\<forall>m \<in> set (fastPathResults s). \<exists>root \<in> set (config_rootFolders C). relativeMatch E C root = Some m"
  shows "length (fastPathResults s') \<le> k
     \<and> (\<forall>m \<in> set (fastPathResults s'). \<exists>root \<in> set (config_rootFolders C). relativeMatch E C root = Some m)"
proof -
  define J where "J = (\<lambda>cs (t::walker). (\<forall>c \<in> set cs. ofRoots E C c)
      \<and> length (fastPathResults t) + length (filter rootCall cs) \<le> k
      \<and> (\<forall>m \<in> set (fastPathResults t). \<exists>root \<in> set (config_rootFolders C). relativeMatch E C root = Some m))"
  have st: "J (pre @ calls u @ post) t1"
    if J: "J (pre @ c # post) t" and cb: "callback E C c t = (u, t1)" for pre c post u t t1
  proof -
    from J have c: "ofRoots E C c" and o: "\<forall>x \<in> set pre \<union> set post. ofRoots E C x"
      and l: "length (fastPathResults t) + length (filter rootCall pre)
          + (if rootCall c then 1 else 0) + length (filter rootCall post) \<le> k"
      and m: "\<forall>m \<in> set (fastPathResults t). \<exists>root \<in> set (config_rootFolders C). relativeMatch E C root = Some m"
      by (auto simp: J_def)
    from callback_fast[OF c, of t] cb
    have 1: "\<forall>c' \<in> set (calls u). ofRoots E C c'"
      and 2: "length (fastPathResults t1) + length (filter rootCall (calls u))
          \<le> length (fastPathResults t) + (if rootCall c then 1 else 0)"
      and 3: "\<forall>m \<in> set (fastPathResults t1). m \<in> set (fastPathResults t)
          \<or> (\<exists>root \<in> set (config_rootFolders C). relativeMatch E C root = Some m)"
      by simp_all
    from 2 l have "length (fastPathResults t1) + length (filter rootCall (pre @ calls u @ post)) \<le> k"
      by simp
    moreover from 3 m have "\<forall>m \<in> set (fastPathResults t1).
        \<exists>root \<in> set (config_rootFolders C). relativeMatch E C root = Some m" by blast
    moreover from 1 o have "\<forall>x \<in> set (pre @ calls u @ post). ofRoots E C x" by auto
    ultimately show ?thesis unfolding J_def by blast
  qed
  have J0: "J (callsIn ts) s" using o l m by (simp add: J_def)
  have "J [] s' \<and> d = (None, isLimitHit s')"
  proof (rule run_invariant[where J = J and E = E and C = C and n = n and ts = ts and s = s])
    fix pre c post u t t1
    assume "J (pre @ c # post) t" and "callback E C c t = (u, t1)"
    then show "J (pre @ calls u @ post) t1" by (rule st)
  qed (fact r J0 nl)+
  then show ?thesis by (simp add: J_def)
qed

lemma relativeMatch_searchInPath: "relativeMatch E C root = Some m \<Longrightarrow> searchInPath E C"
  by (auto simp: relativeMatch_def split: option.splits if_splits)

text \<open>
  The results of the fast paths of a search: the file pattern on the absolute fast path,
  and otherwise at most one for each root folder, which the relative fast path yields
  for one of the root folders.
\<close>

lemma search_fast:
  assumes w: "search n E C = Some ((err, hit), s)"
  shows "(absoluteMatch E C \<longrightarrow> resultCount s = 0 \<and> results s = fastPathResults s
            \<and> (fastPathResults s = [] \<or> (\<exists>p. filePattern E C = Some p \<and> fastPathResults s = [p])))
     \<and> (\<not> absoluteMatch E C \<longrightarrow>
          length (fastPathResults s) \<le> length (config_rootFolders C)
          \<and> (\<forall>m \<in> set (fastPathResults s).
                \<exists>root \<in> set (config_rootFolders C). relativeMatch E C root = Some m))"
proof -
  from search_cases[OF w] consider
    (canceled) p where "s = resume E (callFs (Stat p) newWalker)"
  | (absolute) p where "s = fastPathResult p (resume E (callFs (Stat p) newWalker))"
      "absoluteMatch E C" "filePattern E C = Some p"
  | (walked) s1 where "\<not> absoluteMatch E C"
      "s1 = newWalker \<or> (\<exists>p. s1 = resume E (callFs (Stat p) newWalker))"
      "run n E C (map (\<lambda>absolutePath. InFlight (RootReaddir absolutePath))
                (config_rootFolders C)) (rootsRead E C s1) = Some ((err, hit), s)"
    by blast
  then show ?thesis
  proof cases
    case canceled
    then show ?thesis by simp
  next
    case absolute
    then show ?thesis by simp
  next
    case walked
    from walked(2) have f: "fastPathResults s1 = []" by auto
    have "length (fastPathResults s) \<le> length (config_rootFolders C)
       \<and> (\<forall>m \<in> set (fastPathResults s). \<exists>root \<in> set (config_rootFolders C). relativeMatch E C root = Some m)"
      using run_fast[OF walked(3), of "length (config_rootFolders C)"]
      by (simp add: callsIn_def ofRoots_def list_all_iff f comp_def)
    with walked(1) show ?thesis by simp
  qed
qed


section \<open>The absolute fast path\<close>

text \<open>
  Claim C3, as amended. Where the file pattern is an absolute path that names an existing
  file that is not a directory, and \<open>cancel()\<close> has not been called when the \<open>fs.stat\<close>
  of that path calls back, the search hands exactly that path to \<open>onResult\<close> and is done
  at once, with no error and the limit not hit: the only filesystem call is that
  \<open>fs.stat\<close>, no extra file is considered (\<open>resultCount\<close> stays 0) and no root folder is
  read, whatever the bound on the callbacks.
\<close>

theorem absolute_file_pattern_sole_result:
  assumes "filePattern E C = Some p" and "p \<noteq> []" and "paths_isAbsolute E p"
    and "fs_stat E p = Inr st" and "\<not> isDirectory st" and "cancelAt E \<noteq> Some 0"
  shows "search n E C = Some ((None, False),
           newWalker\<lparr>results := [p], fastPathResults := [p], fsCalls := [Stat p],
             callbacksRun := 1\<rparr>)"
  using assms
  by (simp add: search_def walk_def absoluteMatchCallback_def checkFilePatternAbsoluteMatch_def
        existingFile_def newWalker_def callFs_def resume_def onResult_def fastPathResult_def)

theorem absolute_file_pattern_sole_result_witness:
  "search 0 treeFs absoluteConfig = Some ((None, False),
     newWalker\<lparr>results := [''/r/a.txt''], fastPathResults := [''/r/a.txt''],
       fsCalls := [Stat ''/r/a.txt''], callbacksRun := 1\<rparr>)"
  by (rule absolute_file_pattern_sole_result[where st = fileStats])
     (simp_all add: filePattern_def absoluteConfig_def listAll_def treeStat_def fileStats_def
        replaceAll_backslash_def treeFs_def posix_def)

text \<open>
  Claim C3 as stated fails where \<open>cancel()\<close> is called before the \<open>fs.stat\<close> calls back:
  the pattern names the existing file \<open>/r/a.txt\<close>, and nothing is handed to \<open>onResult\<close>.
\<close>

theorem absolute_file_pattern_canceled_counterexample:
  "absoluteMatch (treeFs\<lparr>cancelAt := Some 0\<rparr>) absoluteConfig \<and>
   search 1 (treeFs\<lparr>cancelAt := Some 0\<rparr>) absoluteConfig = Some ((None, False),
     \<lparr>isLimitHit = False, resultCount = 0, isCanceled = True, walkedPaths = [], results = [],
      fastPathResults = [], fsCalls = [Stat ''/r/a.txt''], callbacksRun = 1\<rparr>)"
  by (simp add: absoluteMatch_def search_def walk_def absoluteMatchCallback_def checkFilePatternAbsoluteMatch_def
        existingFile_def newWalker_def callFs_def resume_def filePattern_def absoluteConfig_def listAll_def
        treeStat_def fileStats_def replaceAll_backslash_def treeFs_def posix_def)


section \<open>Cancellation and the limit stop every branch\<close>

text \<open>
  Claim C5. Every point of the walk that tests the flags stops there once \<open>isCanceled\<close>
  or \<open>isLimitHit\<close> is set: \<open>doWalk\<close> on the files of a directory, the callbacks of
  \<open>fs.lstat\<close>, of \<open>realPathIfNeeded\<close> and of \<open>extfs.readdir\<close> on an entry, and the
  callbacks of \<open>extfs.readdir\<close> and of \<open>checkFilePatternRelativeMatch\<close> on a root folder end
  their branch with null and hand the walker on as it is: no filesystem call is issued
  and none is left in flight, no result is delivered, nothing is remembered as walked,
  whatever the filesystem handed to the callback. The callback of
  \<open>checkFilePatternAbsoluteMatch\<close> calls \<open>done\<close> at once when \<open>isCanceled\<close> is set.
\<close>

theorem stopped_short_circuit:
  assumes "stopped s"
  shows "doWalk E C a r files s = (Parallel (map (\<lambda>file. Called None) files), s)
     \<and> lstatCallback E C a r f x s = (Called None, s)
     \<and> realpathCallback p q y s = (Called None, s)
     \<and> readdirCallback E C p q z s = (Called None, s)
     \<and> rootReaddirCallback E C root z s = (Called None, s)
     \<and> relativeMatchCallback E C root files m s = (Called None, s)
     \<and> (isCanceled s \<longrightarrow>
          absoluteMatchCallback n E C roots extra ex s = Some ((None, isLimitHit s), s))"
  using assms
  by (auto simp: doWalk_def issueLstats_def entryProceeds_def lstatCallback_def
        realpathCallback_def readdirCallback_def rootReaddirCallback_def relativeMatchCallback_def
        absoluteMatchCallback_def Let_def split: sum.splits)

theorem stopped_short_circuit_witness:
  "stopped canceledWalker
   \<and> doWalk treeFs listAll ''/r'' [] [''a.txt'', ''d''] canceledWalker
        = (Parallel [Called None, Called None], canceledWalker)
   \<and> lstatCallback treeFs listAll ''/r'' [] ''d'' (Inr dirStats) canceledWalker
        = (Called None, canceledWalker)
   \<and> realpathCallback ''/r/d'' ''d'' (Inr ''/r/d'') canceledWalker
        = (Called None, canceledWalker)
   \<and> readdirCallback treeFs listAll ''/r/d'' ''d'' (Inr [''b.txt'']) canceledWalker
        = (Called None, canceledWalker)
   \<and> rootReaddirCallback treeFs listAll ''/r'' (Inr [''a.txt'', ''d'']) canceledWalker
        = (Called None, canceledWalker)
   \<and> relativeMatchCallback treeFs listAll ''/r'' [''a.txt'', ''d''] None canceledWalker
        = (Called None, canceledWalker)
   \<and> absoluteMatchCallback 1 treeFs listAll [''/r''] None False canceledWalker
        = Some ((None, False), canceledWalker)"
proof -
  have s: "stopped canceledWalker \<and> isCanceled canceledWalker \<and> \<not> isLimitHit canceledWalker"
    by code_simp
  then have st: "stopped canceledWalker" by simp
  from stopped_short_circuit[OF st, where n = 1 and E = treeFs and C = listAll and a = "''/r''"
      and r = "[]" and files = "[''a.txt'', ''d'']"
      and f = "''d''" and x = "Inr dirStats" and p = "''/r/d''" and q = "''d''"
      and y = "Inr ''/r/d''" and z = "Inr [''a.txt'', ''d'']" and root = "''/r''" and m = None
      and roots = "[''/r'']" and extra = None and ex = False]
    stopped_short_circuit[OF st, where E = treeFs and C = listAll and p = "''/r/d''"
      and q = "''d''" and z = "Inr [''b.txt'']", THEN conjunct2, THEN conjunct2, THEN conjunct2,
      THEN conjunct1] s
  show ?thesis by simp
qed


section \<open>Exclusion with sibling names\<close>

text \<open>
  Claim C6. Where the flags are not set, \<open>doWalk\<close> on the files of a directory goes on
  to \<open>fs.lstat\<close> for exactly the files that the exclude pattern does not match, the
  pattern being evaluated on the relative path of the file with an empty sibling list
  where the name of the file is the configured file pattern, and with all names of the
  directory otherwise. A file that the pattern matches is skipped entirely: its branch
  has called back with null, no filesystem call is issued for it and none is in flight
  for it, so that no callback runs for it and it is neither delivered nor walked into.
\<close>

theorem excluded_entries_skipped:
  assumes "\<not> stopped s"
  shows "doWalk E C a rel files s =
     (Parallel (map (\<lambda>f. if glob_match E (config_excludePattern C) (relativeFilePath rel f)
                               (Some (if config_filePattern C = Some f then [] else files))
                          then Called None else InFlight (EntryLstat a rel f)) files),
      fold (\<lambda>f. callFs (Lstat (paths_join E a f)))
        [f \<leftarrow> files. \<not> glob_match E (config_excludePattern C) (relativeFilePath rel f)
             (Some (if config_filePattern C = Some f then [] else files))] s)
   \<and> calls (fst (doWalk E C a rel files s)) =
       map (EntryLstat a rel)
         [f \<leftarrow> files. \<not> glob_match E (config_excludePattern C) (relativeFilePath rel f)
              (Some (if config_filePattern C = Some f then [] else files))]"
proof -
  have p: "entryProceeds E C rel files s =
      (\<lambda>f. \<not> glob_match E (config_excludePattern C) (relativeFilePath rel f)
                     (Some (if config_filePattern C = Some f then [] else files)))"
    using assms by (auto simp: entryProceeds_def siblings_def fun_eq_iff)
  have c: "concat (map (\<lambda>f. calls (if P f then Called None else InFlight (EntryLstat a rel f))) xs)
      = map (EntryLstat a rel) [f \<leftarrow> xs. \<not> P f]" for P and xs :: "string list"
    by (induction xs) simp_all
  have d: "doWalk E C a rel files s =
     (Parallel (map (\<lambda>f. if glob_match E (config_excludePattern C) (relativeFilePath rel f)
                               (Some (if config_filePattern C = Some f then [] else files))
                          then Called None else InFlight (EntryLstat a rel f)) files),
      fold (\<lambda>f. callFs (Lstat (paths_join E a f)))
        [f \<leftarrow> files. \<not> glob_match E (config_excludePattern C) (relativeFilePath rel f)
             (Some (if config_filePattern C = Some f then [] else files))] s)"
    unfolding doWalk_def issueLstats_def p by (simp cong: if_cong)
  show ?thesis
    unfolding d by (simp add: comp_def c)
qed

theorem excluded_entries_skipped_witness:
  "\<not> stopped newWalker
   \<and> doWalk scriptFs excludeCompiled ''/w'' [] [''a.js'', ''a.ts''] newWalker
       = (Parallel [Called None, InFlight (EntryLstat ''/w'' [] ''a.ts'')],
          newWalker\<lparr>fsCalls := [Lstat ''/w/a.ts'']\<rparr>)
   \<and> calls (fst (doWalk scriptFs excludeCompiled ''/w'' [] [''a.js'', ''a.ts''] newWalker))
       = [EntryLstat ''/w'' [] ''a.ts'']
   \<and> doWalk scriptFs exactScript ''/w'' [] [''a.js'', ''a.ts''] newWalker
       = (Parallel [InFlight (EntryLstat ''/w'' [] ''a.js''), InFlight (EntryLstat ''/w'' [] ''a.ts'')],
          newWalker\<lparr>fsCalls := [Lstat ''/w/a.js'', Lstat ''/w/a.ts'']\<rparr>)
   \<and> calls (fst (doWalk scriptFs exactScript ''/w'' [] [''a.js'', ''a.ts''] newWalker))
       = [EntryLstat ''/w'' [] ''a.js'', EntryLstat ''/w'' [] ''a.ts'']
   \<and> search 3 scriptFs excludeCompiled = Some ((None, False),
        \<lparr>isLimitHit = False, resultCount = 1, isCanceled = False, walkedPaths = [],
         results = [''/w/a.ts''], fastPathResults = [],
         fsCalls = [Readdir ''/w'', Lstat ''/w/a.ts''], callbacksRun = 2\<rparr>)"
proof -
  have ns: "\<not> stopped newWalker" by code_simp
  have f1: "[f \<leftarrow> [''a.js'', ''a.ts'']. \<not> glob_match scriptFs (config_excludePattern excludeCompiled)
          (relativeFilePath [] f)
          (Some (if config_filePattern excludeCompiled = Some f then [] else [''a.js'', ''a.ts'']))]
       = [''a.ts'']" by code_simp
  have g1: "map (\<lambda>f. if glob_match scriptFs (config_excludePattern excludeCompiled) (relativeFilePath [] f)
                               (Some (if config_filePattern excludeCompiled = Some f then [] else [''a.js'', ''a.ts'']))
                          then Called None else InFlight (EntryLstat ''/w'' [] f)) [''a.js'', ''a.ts'']
       = [Called None, InFlight (EntryLstat ''/w'' [] ''a.ts'')]" by code_simp
  have f2: "[f \<leftarrow> [''a.js'', ''a.ts'']. \<not> glob_match scriptFs (config_excludePattern exactScript)
          (relativeFilePath [] f)
          (Some (if config_filePattern exactScript = Some f then [] else [''a.js'', ''a.ts'']))]
       = [''a.js'', ''a.ts'']" by code_simp
  have g2: "map (\<lambda>f. if glob_match scriptFs (config_excludePattern exactScript) (relativeFilePath [] f)
                               (Some (if config_filePattern exactScript = Some f then [] else [''a.js'', ''a.ts'']))
                          then Called None else InFlight (EntryLstat ''/w'' [] f)) [''a.js'', ''a.ts'']
       = [InFlight (EntryLstat ''/w'' [] ''a.js''), InFlight (EntryLstat ''/w'' [] ''a.ts'')]"
    by code_simp
  have j: "paths_join scriptFs = (\<lambda>a b. a @ ''/'' @ b)" by (simp add: scriptFs_def posix_def)
  have w: "search 3 scriptFs excludeCompiled = Some ((None, False),
        \<lparr>isLimitHit = False, resultCount = 1, isCanceled = False, walkedPaths = [],
         results = [''/w/a.ts''], fastPathResults = [],
         fsCalls = [Readdir ''/w'', Lstat ''/w/a.ts''], callbacksRun = 2\<rparr>)" by code_simp
  from excluded_entries_skipped[OF ns, where E = scriptFs and C = excludeCompiled
      and a = "''/w''" and rel = "[]" and files = "[''a.js'', ''a.ts'']"]
  have d1: "doWalk scriptFs excludeCompiled ''/w'' [] [''a.js'', ''a.ts''] newWalker
       = (Parallel [Called None, InFlight (EntryLstat ''/w'' [] ''a.ts'')],
          newWalker\<lparr>fsCalls := [Lstat ''/w/a.ts'']\<rparr>)"
    and c1: "calls (fst (doWalk scriptFs excludeCompiled ''/w'' [] [''a.js'', ''a.ts''] newWalker))
       = [EntryLstat ''/w'' [] ''a.ts'']"
    unfolding f1 g1 by (simp_all add: j callFs_def newWalker_def)
  from excluded_entries_skipped[OF ns, where E = scriptFs and C = exactScript
      and a = "''/w''" and rel = "[]" and files = "[''a.js'', ''a.ts'']"]
  have d2: "doWalk scriptFs exactScript ''/w'' [] [''a.js'', ''a.ts''] newWalker
       = (Parallel [InFlight (EntryLstat ''/w'' [] ''a.js''), InFlight (EntryLstat ''/w'' [] ''a.ts'')],
          newWalker\<lparr>fsCalls := [Lstat ''/w/a.js'', Lstat ''/w/a.ts'']\<rparr>)"
    and c2: "calls (fst (doWalk scriptFs exactScript ''/w'' [] [''a.js'', ''a.ts''] newWalker))
       = [EntryLstat ''/w'' [] ''a.js'', EntryLstat ''/w'' [] ''a.ts'']"
    unfolding f2 g2 by (simp_all add: j callFs_def newWalker_def)
  from ns d1 c1 d2 c2 w show ?thesis by (intro conjI)
qed


section \<open>The file whose relative path is the file pattern\<close>

text \<open>
  Claim C7 fails on the code. The search of \<open>/r\<close> for the pattern \<open>a.txt\<close> meets the file
  \<open>/r/a.txt\<close>, whose relative path is the pattern: the walk skips it, leaving it to
  \<open>checkFilePatternRelativeMatch\<close>, which does nothing for a pattern without a path
  separator. The file is delivered by neither, whether the \<open>fs.lstat\<close> of the file or
  that of the folder \<open>d\<close> calls back first.
\<close>

theorem exact_name_pattern_drops_file:
  "searchInPath treeFs exactName = False
   \<and> search 5 treeFs exactName = Some ((None, False),
     \<lparr>isLimitHit = False, resultCount = 0, isCanceled = False, walkedPaths = [''/r/d''],
      results = [], fastPathResults = [],
      fsCalls = [Readdir ''/r'', Lstat ''/r/a.txt'', Lstat ''/r/d'', Readdir ''/r/d'',
        Lstat ''/r/d/b.txt''],
      callbacksRun = 5\<rparr>)
   \<and> search 5 (treeFs\<lparr>completes := (\<lambda>k. 1)\<rparr>) exactName = Some ((None, False),
     \<lparr>isLimitHit = False, resultCount = 0, isCanceled = False, walkedPaths = [''/r/d''],
      results = [], fastPathResults = [],
      fsCalls = [Readdir ''/r'', Lstat ''/r/a.txt'', Lstat ''/r/d'', Readdir ''/r/d'',
        Lstat ''/r/d/b.txt''],
      callbacksRun = 5\<rparr>)"
  by code_simp


section \<open>Errors\<close>





section \<open>The result counter\<close>

lemma search_counted:
  assumes w: "search n E C = Some ((err, hit), s)"
  shows "counted C s"
proof -
  have "counted C newWalker" by (simp add: counted_def split: option.splits)
  with w show ?thesis unfolding search_def by (rule walk_counted)
qed

lemma matchFile_passes:
  "passes E C b r \<Longrightarrow> resultCount (matchFile E C b a r u) = resultCount u + 1"
  "\<not> passes E C b r \<Longrightarrow> matchFile E C b a r u = u"
  "results (matchFile E C b a r u)
     = (if passes E C b r \<and> \<not> isLimitHit (matchFile E C b a r u) then results u @ [a] else results u)"
  by (auto simp: passes_def matchFile_def Let_def onResult_def split: option.splits)

text \<open>
  Claim C9, as amended. \<open>resultCount\<close> counts the candidates that pass the tests of
  \<open>matchFile\<close>, whether they are delivered or swallowed by the limit: \<open>matchFile\<close> adds
  one for a candidate that passes and does nothing for one that does not, it delivers a
  candidate only if it passes, and no callback changes the counter but by \<open>matchFile\<close>
  on the file its \<open>fs.lstat\<close> was for. So the counter never decreases, in a callback,
  on an extra file, or in a whole walk from any walker. Throughout a search the counter,
  the limit flag and the results agree: the results delivered are as many as
  \<open>resultCount\<close> says, less what was counted beyond \<open>maxResults\<close>, and the results of the
  fast paths, which are not counted.
\<close>

theorem resultCount_counts_candidates:
  "(passes E C b r \<longrightarrow> resultCount (matchFile E C b a r u) = resultCount u + 1)
   \<and> (\<not> passes E C b r \<longrightarrow> matchFile E C b a r u = u)
   \<and> results (matchFile E C b a r u)
       = (if passes E C b r \<and> \<not> isLimitHit (matchFile E C b a r u) then results u @ [a]
          else results u)
   \<and> (resultCount (snd (callback E C c t)) = resultCount t
       \<or> (\<exists>x rel f. c = EntryLstat x rel f
             \<and> snd (callback E C c t)
                 = matchFile E C f (paths_join E x f) (relativeFilePath rel f) (resume E t)))
   \<and> resultCount t \<le> resultCount (snd (step E C ts t))
   \<and> resultCount t \<le> resultCount (extraFile E C y t)
   \<and> (walk n E C roots extra s0 = Some (d, t') \<longrightarrow> resultCount s0 \<le> resultCount t')
   \<and> counted C newWalker
   \<and> (counted C t \<longrightarrow> counted C (extraFile E C y t) \<and> counted C (snd (step E C ts t)))
   \<and> (search n E C = Some ((err, hit), s) \<longrightarrow> counted C s)"
proof -
  have 1: "resultCount (snd (callback E C c t)) = resultCount t
       \<or> (\<exists>x rel f. c = EntryLstat x rel f
             \<and> snd (callback E C c t)
                 = matchFile E C f (paths_join E x f) (relativeFilePath rel f) (resume E t))"
    using callback_frame[of E C c t] by blast
  have 2: "resultCount t \<le> resultCount (extraFile E C y t)"
    by (simp add: extraFile_def matchFile_mono)
  have 3: "walk n E C roots extra s0 = Some (d, t') \<longrightarrow> resultCount s0 \<le> resultCount t'"
    by (auto dest: walk_mono)
  have 4: "counted C newWalker" by (simp add: counted_def split: option.splits)
  have 5: "counted C t \<longrightarrow> counted C (extraFile E C y t) \<and> counted C (snd (step E C ts t))"
    by (simp add: extraFile_counted step_counted)
  have 6: "search n E C = Some ((err, hit), s) \<longrightarrow> counted C s"
    by (auto dest: search_counted)
  from matchFile_passes[where E = E and C = C and b = b and r = r and a = a and u = u] 1 step_mono[of t E C ts] 2 3 4 5 6
  show ?thesis by (intro conjI) blast+
qed

theorem resultCount_counts_candidates_witness:
  "passes treeFs listOne ''b.txt'' ''d/b.txt''
   \<and> resultCount oneDelivered = 1
   \<and> resultCount (matchFile treeFs listOne ''b.txt'' ''/r/d/b.txt'' ''d/b.txt'' oneDelivered) = 2
   \<and> results (matchFile treeFs listOne ''b.txt'' ''/r/d/b.txt'' ''d/b.txt'' oneDelivered) = [''/r/a.txt'']
   \<and> counted listOne oneDelivered
   \<and> counted listOne (snd (step treeFs listOne [InFlight (EntryLstat ''/r/d'' ''d'' ''b.txt'')] oneDelivered))
   \<and> resultCount (snd (step treeFs listOne [InFlight (EntryLstat ''/r/d'' ''d'' ''b.txt'')] oneDelivered)) = 2
   \<and> search 5 treeFs listOne = Some ((None, True), listOneEnd)
   \<and> counted listOne listOneEnd
   \<and> resultCount listOneEnd = 2 \<and> results listOneEnd = [''/r/a.txt'']"
proof -
  have p: "passes treeFs listOne ''b.txt'' ''d/b.txt''" by code_simp
  have c: "counted listOne oneDelivered" by code_simp
  have w: "search 5 treeFs listOne = Some ((None, True), listOneEnd)" by code_simp
  have l: "isLimitHit (matchFile treeFs listOne ''b.txt'' ''/r/d/b.txt'' ''d/b.txt'' oneDelivered)"
    by code_simp
  have r: "resultCount oneDelivered = 1" "results oneDelivered = [''/r/a.txt'']" by code_simp+
  have e: "resultCount listOneEnd = 2" "results listOneEnd = [''/r/a.txt'']" by code_simp+
  have s: "resultCount (snd (step treeFs listOne [InFlight (EntryLstat ''/r/d'' ''d'' ''b.txt'')] oneDelivered)) = 2"
    by code_simp
  from resultCount_counts_candidates[of treeFs listOne "''b.txt''" "''d/b.txt''" "''/r/d/b.txt''"
      oneDelivered _ oneDelivered "[InFlight (EntryLstat ''/r/d'' ''d'' ''b.txt'')]" _ 5 _ _ _ _ _
      None True listOneEnd] p c w l r e s
  show ?thesis by simp
qed

text \<open>
  Claim C9 as stated fails where the limit is crossed: with \<open>maxResults = 1\<close> and two
  extra files, one result is delivered and \<open>resultCount\<close> is 2.
\<close>

theorem resultCount_exceeds_delivered_counterexample:
  "search 0 treeFs extraOnly = Some ((None, True),
     \<lparr>isLimitHit = True, resultCount = 2, isCanceled = False, walkedPaths = [],
      results = [''/x/one''], fastPathResults = [], fsCalls = [], callbacksRun = 0\<rparr>)"
  by code_simp


section \<open>The result limit\<close>

text \<open>
  Claim C1, as amended. In a search with \<open>maxResults = N > 0\<close>, in whatever order the
  filesystem calls call back, the results handed to \<open>onResult\<close> by \<open>matchFile\<close> are
  \<open>resultCount\<close> or \<open>N\<close> of them, whichever is less, hence at most \<open>N\<close>. The results of
  the fast paths are handed over beside them and are not counted: at most one for each
  root folder, and none where the file pattern holds no path separator, so that at most
  \<open>N\<close> plus one result for each root folder are delivered in all. A candidate that
  passes the tests of \<open>matchFile\<close> is counted; when \<open>N\<close> or more have been counted it is
  not delivered and the limit flag is set, otherwise it is delivered. At the end the
  limit flag is set exactly when more than \<open>N\<close> candidates have been counted, and \<open>done\<close>
  reports that flag.
\<close>

theorem limit_hit_bounds_results:
  assumes m: "maxResults C = Some N" and N: "0 < N"
    and w: "search n E C = Some ((err, hit), s)"
  shows "length (results s) = min (resultCount s) (nat N) + length (fastPathResults s)
     \<and> length (results s) - length (fastPathResults s) \<le> nat N
     \<and> length (fastPathResults s) \<le> (if absoluteMatch E C then 1 else length (config_rootFolders C))
     \<and> (\<not> searchInPath E C \<and> \<not> absoluteMatch E C \<longrightarrow> fastPathResults s = [])
     \<and> length (results s) \<le> nat N + length (config_rootFolders C)
     \<and> (\<not> searchInPath E C \<longrightarrow> length (results s) \<le> nat N)
     \<and> (isLimitHit s \<longleftrightarrow> N < int (resultCount s))
     \<and> hit = isLimitHit s
     \<and> (passes E C b r \<longrightarrow> resultCount (matchFile E C b a r t) = resultCount t + 1)
     \<and> (passes E C b r \<and> nat N \<le> resultCount t \<longrightarrow>
          results (matchFile E C b a r t) = results t \<and> isLimitHit (matchFile E C b a r t))
     \<and> (passes E C b r \<and> resultCount t < nat N \<and> \<not> isLimitHit t \<longrightarrow>
          results (matchFile E C b a r t) = results t @ [a] \<and> \<not> isLimitHit (matchFile E C b a r t))"
proof -
  from search_counted[OF w] m
  have J: "isLimitHit s = (N < int (resultCount s) \<and> 0 < resultCount s)"
    and c: "length (results s) = min (resultCount s) (nat N) + length (fastPathResults s)"
    by (simp_all add: counted_def)
  from J N have l: "isLimitHit s \<longleftrightarrow> N < int (resultCount s)" by auto
  from search_cases[OF w] have h: "hit = isLimitHit s" by simp
  from search_fast[OF w]
  have a: "absoluteMatch E C \<longrightarrow> resultCount s = 0 \<and> length (fastPathResults s) \<le> 1"
    and f: "\<not> absoluteMatch E C \<longrightarrow> length (fastPathResults s) \<le> length (config_rootFolders C)"
    and g: "\<not> absoluteMatch E C \<longrightarrow> (\<forall>m \<in> set (fastPathResults s).
                \<exists>root \<in> set (config_rootFolders C). relativeMatch E C root = Some m)"
    by auto
  have e: "\<not> searchInPath E C \<and> \<not> absoluteMatch E C \<longrightarrow> fastPathResults s = []"
  proof
    assume x: "\<not> searchInPath E C \<and> \<not> absoluteMatch E C"
    have "False" if "y \<in> set (fastPathResults s)" for y
    proof -
      from g x that obtain root where "relativeMatch E C root = Some y" by blast
      from relativeMatch_searchInPath[OF this] x show False by simp
    qed
    then show "fastPathResults s = []" by (cases "fastPathResults s") auto
  qed
  from N have N1: "1 \<le> nat N" by simp
  have t1: "length (results s) \<le> nat N + length (config_rootFolders C)"
  proof (cases "absoluteMatch E C")
    case True
    with a c N1 show ?thesis by simp
  next
    case False
    with f c show ?thesis by simp
  qed
  have t2: "\<not> searchInPath E C \<longrightarrow> length (results s) \<le> nat N"
  proof (cases "absoluteMatch E C")
    case True
    with a c N1 show ?thesis by simp
  next
    case False
    with e c show ?thesis by auto
  qed
  have p1: "passes E C b r \<longrightarrow> resultCount (matchFile E C b a r t) = resultCount t + 1"
    by (simp add: matchFile_passes)
  have p2: "passes E C b r \<and> nat N \<le> resultCount t \<longrightarrow>
          results (matchFile E C b a r t) = results t \<and> isLimitHit (matchFile E C b a r t)"
    using m N by (auto simp: passes_def matchFile_def Let_def)
  have p3: "passes E C b r \<and> resultCount t < nat N \<and> \<not> isLimitHit t \<longrightarrow>
          results (matchFile E C b a r t) = results t @ [a] \<and> \<not> isLimitHit (matchFile E C b a r t)"
    using m N by (auto simp: passes_def matchFile_def Let_def onResult_def)
  from c have c2: "length (results s) - length (fastPathResults s) \<le> nat N" by simp
  from a f have b: "length (fastPathResults s) \<le> (if absoluteMatch E C then 1 else length (config_rootFolders C))"
    by simp
  from c c2 b e t1 t2 l h p1 p2 p3 show ?thesis by (intro conjI)
qed

theorem limit_hit_bounds_results_witness:
  "maxResults listOne = Some 1 \<and> search 5 treeFs listOne = Some ((None, True), listOneEnd)
   \<and> length (results listOneEnd) = 1 \<and> fastPathResults listOneEnd = []
   \<and> isLimitHit listOneEnd \<and> resultCount listOneEnd = 2
   \<and> passes treeFs listOne ''b.txt'' ''d/b.txt'' \<and> resultCount oneDelivered = 1
   \<and> resultCount (matchFile treeFs listOne ''b.txt'' ''/r/d/b.txt'' ''d/b.txt'' oneDelivered) = 2
   \<and> results (matchFile treeFs listOne ''b.txt'' ''/r/d/b.txt'' ''d/b.txt'' oneDelivered) = results oneDelivered
   \<and> isLimitHit (matchFile treeFs listOne ''b.txt'' ''/r/d/b.txt'' ''d/b.txt'' oneDelivered)
   \<and> results (matchFile treeFs listOne ''a.txt'' ''/r/a.txt'' ''a.txt'' newWalker) = [''/r/a.txt'']
   \<and> search 5 (treeFs\<lparr>completes := (\<lambda>k. 1)\<rparr>) listOne = Some ((None, True),
        listOneEnd\<lparr>results := [''/r/d/b.txt'']\<rparr>)"
proof -
  have m: "maxResults listOne = Some 1" by code_simp
  have w: "search 5 treeFs listOne = Some ((None, True), listOneEnd)" by code_simp
  have w2: "search 5 (treeFs\<lparr>completes := (\<lambda>k. 1)\<rparr>) listOne = Some ((None, True),
        listOneEnd\<lparr>results := [''/r/d/b.txt'']\<rparr>)" by code_simp
  have p: "passes treeFs listOne ''b.txt'' ''d/b.txt''" "passes treeFs listOne ''a.txt'' ''a.txt''"
    by code_simp+
  have c: "resultCount oneDelivered = 1" "resultCount newWalker = 0" "\<not> isLimitHit newWalker"
    "results newWalker = []" by code_simp+
  have e: "resultCount listOneEnd = 2" "fastPathResults listOneEnd = []" "isLimitHit listOneEnd"
    by code_simp+
  from limit_hit_bounds_results[OF m _ w, where t = oneDelivered and b = "''b.txt''"
      and r = "''d/b.txt''" and a = "''/r/d/b.txt''"]
    limit_hit_bounds_results[OF m _ w, where t = newWalker and b = "''a.txt''"
      and r = "''a.txt''" and a = "''/r/a.txt''"] m w w2 p c e
  show ?thesis by simp
qed

text \<open>
  Claim C1 as stated fails on the results of the relative fast path, which are not
  counted: with \<open>maxResults = 1\<close>, two root folders that both hold the file named by the
  pattern deliver two results, and the limit is not hit.
\<close>

theorem fast_path_results_exceed_limit_counterexample:
  "maxResults relativeConfig = Some 1 \<and>
   search 10 pairFs relativeConfig = Some ((None, False),
     \<lparr>isLimitHit = False, resultCount = 0, isCanceled = False,
      walkedPaths = [''/p/x'', ''/q/x''],
      results = [''/p/x/f.txt'', ''/q/x/f.txt''],
      fastPathResults = [''/p/x/f.txt'', ''/q/x/f.txt''],
      fsCalls = [Readdir ''/p'', Readdir ''/q'', Stat ''/p/x/f.txt'', Lstat ''/p/x'',
        Readdir ''/p/x'', Lstat ''/p/x/f.txt'', Stat ''/q/x/f.txt'', Lstat ''/q/x'',
        Readdir ''/q/x'', Lstat ''/q/x/f.txt''],
      callbacksRun = 10\<rparr>)"
  by code_simp


section \<open>The fast paths do not go through \<open>matchFile\<close>\<close>

text \<open>
  Claim C10. The result of the absolute fast path is delivered whatever \<open>maxResults\<close>,
  the include pattern and the fuzzy matcher are, with the counter at 0 and the limit not
  hit. The callback of the relative fast path delivers the path it is handed before it
  walks the root folder, whatever the include pattern and \<open>maxResults\<close> are, and leaves
  the counter and the limit flag as they are; so does the callback of its \<open>fs.stat\<close> for
  a file that exists. No other callback changes the counter or the limit flag but by
  \<open>matchFile\<close> on the file its \<open>fs.lstat\<close> was for, and an extra file changes them by
  \<open>matchFile\<close> if at all. At the end of a search the results beyond those counted are
  the results of the fast paths, each of them the file pattern itself or what the
  relative fast path yields for a root folder.
\<close>

theorem fast_paths_bypass_matchFile:
  "(filePattern E C = Some p \<and> absoluteMatch E C \<and> cancelAt E \<noteq> Some 0 \<longrightarrow>
      search n E C = Some ((None, False),
        newWalker\<lparr>results := [p], fastPathResults := [p], fsCalls := [Stat p], callbacksRun := 1\<rparr>))
   \<and> (\<not> stopped t \<longrightarrow>
        relativeMatchCallback E C root files (Some m) t = doWalk E C root [] files (fastPathResult m t)
        \<and> results (snd (relativeMatchCallback E C root files (Some m) t)) = results t @ [m]
        \<and> resultCount (snd (relativeMatchCallback E C root files (Some m) t)) = resultCount t
        \<and> isLimitHit (snd (relativeMatchCallback E C root files (Some m) t)) = isLimitHit t)
   \<and> (existingFile (fs_stat E path) \<and> \<not> stopped (resume E t) \<longrightarrow>
        results (snd (callback E C (RelativeStat root files path) t)) = results t @ [path]
        \<and> resultCount (snd (callback E C (RelativeStat root files path) t)) = resultCount t
        \<and> isLimitHit (snd (callback E C (RelativeStat root files path) t)) = isLimitHit t)
   \<and> ((resultCount (snd (callback E C c t)) = resultCount t
         \<and> isLimitHit (snd (callback E C c t)) = isLimitHit t)
       \<or> (\<exists>x rel f. c = EntryLstat x rel f
             \<and> snd (callback E C c t)
                 = matchFile E C f (paths_join E x f) (relativeFilePath rel f) (resume E t)))
   \<and> (extraFile E C y t = t \<or> extraFile E C y t = matchFile E C (paths_basename E y) y y t)
   \<and> (search n E C = Some ((err, hit), s) \<longrightarrow>
        length (results s)
          = (case maxResults C of None \<Rightarrow> resultCount s | Some N \<Rightarrow> min (resultCount s) (nat N))
            + length (fastPathResults s)
        \<and> (\<forall>x \<in> set (fastPathResults s).
              (absoluteMatch E C \<and> filePattern E C = Some x)
              \<or> (\<exists>root \<in> set (config_rootFolders C). relativeMatch E C root = Some x)))"
proof -
  have 1: "filePattern E C = Some p \<and> absoluteMatch E C \<and> cancelAt E \<noteq> Some 0 \<longrightarrow>
      search n E C = Some ((None, False),
        newWalker\<lparr>results := [p], fastPathResults := [p], fsCalls := [Stat p], callbacksRun := 1\<rparr>)"
  proof
    assume h: "filePattern E C = Some p \<and> absoluteMatch E C \<and> cancelAt E \<noteq> Some 0"
    then have "p \<noteq> []" "paths_isAbsolute E p" "existingFile (fs_stat E p)"
      by (auto simp: absoluteMatch_def)
    with h show "search n E C = Some ((None, False),
        newWalker\<lparr>results := [p], fastPathResults := [p], fsCalls := [Stat p], callbacksRun := 1\<rparr>)"
      by (simp add: search_def walk_def absoluteMatchCallback_def
          checkFilePatternAbsoluteMatch_def newWalker_def callFs_def resume_def onResult_def
          fastPathResult_def)
  qed
  have 2: "\<not> stopped t \<longrightarrow>
        relativeMatchCallback E C root files (Some m) t = doWalk E C root [] files (fastPathResult m t)
        \<and> results (snd (relativeMatchCallback E C root files (Some m) t)) = results t @ [m]
        \<and> resultCount (snd (relativeMatchCallback E C root files (Some m) t)) = resultCount t
        \<and> isLimitHit (snd (relativeMatchCallback E C root files (Some m) t)) = isLimitHit t"
    by (simp add: relativeMatchCallback_def)
  have 3: "existingFile (fs_stat E path) \<and> \<not> stopped (resume E t) \<longrightarrow>
        results (snd (callback E C (RelativeStat root files path) t)) = results t @ [path]
        \<and> resultCount (snd (callback E C (RelativeStat root files path) t)) = resultCount t
        \<and> isLimitHit (snd (callback E C (RelativeStat root files path) t)) = isLimitHit t"
    by (simp add: callback_def relativeMatchCallback_def relativeStatResult_def)
  have 4: "(resultCount (snd (callback E C c t)) = resultCount t
         \<and> isLimitHit (snd (callback E C c t)) = isLimitHit t)
       \<or> (\<exists>x rel f. c = EntryLstat x rel f
             \<and> snd (callback E C c t)
                 = matchFile E C f (paths_join E x f) (relativeFilePath rel f) (resume E t))"
    using callback_frame[of E C c t] by blast
  have 5: "extraFile E C y t = t \<or> extraFile E C y t = matchFile E C (paths_basename E y) y y t"
    by (simp add: extraFile_def)
  have 6: "search n E C = Some ((err, hit), s) \<longrightarrow>
        length (results s)
          = (case maxResults C of None \<Rightarrow> resultCount s | Some N \<Rightarrow> min (resultCount s) (nat N))
            + length (fastPathResults s)
        \<and> (\<forall>x \<in> set (fastPathResults s).
              (absoluteMatch E C \<and> filePattern E C = Some x)
              \<or> (\<exists>root \<in> set (config_rootFolders C). relativeMatch E C root = Some x))"
  proof
    assume w: "search n E C = Some ((err, hit), s)"
    from search_counted[OF w] have "length (results s)
          = (case maxResults C of None \<Rightarrow> resultCount s | Some N \<Rightarrow> min (resultCount s) (nat N))
            + length (fastPathResults s)"
      by (auto simp: counted_def split: option.splits)
    moreover from search_fast[OF w] have "\<forall>x \<in> set (fastPathResults s).
              (absoluteMatch E C \<and> filePattern E C = Some x)
              \<or> (\<exists>root \<in> set (config_rootFolders C). relativeMatch E C root = Some x)"
      by (cases "absoluteMatch E C") auto
    ultimately show "length (results s)
          = (case maxResults C of None \<Rightarrow> resultCount s | Some N \<Rightarrow> min (resultCount s) (nat N))
            + length (fastPathResults s)
        \<and> (\<forall>x \<in> set (fastPathResults s).
              (absoluteMatch E C \<and> filePattern E C = Some x)
              \<or> (\<exists>root \<in> set (config_rootFolders C). relativeMatch E C root = Some x))" ..
  qed
  from 1 2 3 4 5 6 show ?thesis by (intro conjI)
qed

theorem fast_paths_bypass_matchFile_witness:
  "filePattern treeFs absoluteInclude = Some ''/r/a.txt'' \<and> absoluteMatch treeFs absoluteInclude
   \<and> maxResults absoluteInclude = Some 1
   \<and> \<not> includeMatch treeFs absoluteInclude ''/r/a.txt''
   \<and> search 0 treeFs absoluteInclude = Some ((None, False),
        newWalker\<lparr>results := [''/r/a.txt''], fastPathResults := [''/r/a.txt''],
          fsCalls := [Stat ''/r/a.txt''], callbacksRun := 1\<rparr>)
   \<and> \<not> includeMatch treeFs relativeInclude ''d/b.txt''
   \<and> \<not> stopped newWalker
   \<and> results (snd (relativeMatchCallback treeFs relativeInclude ''/r'' [''a.txt'', ''d'']
          (Some ''/r/d/b.txt'') newWalker)) = [''/r/d/b.txt'']
   \<and> resultCount (snd (relativeMatchCallback treeFs relativeInclude ''/r'' [''a.txt'', ''d'']
          (Some ''/r/d/b.txt'') newWalker)) = 0
   \<and> existingFile (fs_stat treeFs ''/r/d/b.txt'')
   \<and> results (snd (callback treeFs relativeInclude
          (RelativeStat ''/r'' [''a.txt'', ''d''] ''/r/d/b.txt'') oneDelivered))
        = [''/r/a.txt'', ''/r/d/b.txt'']
   \<and> resultCount (snd (callback treeFs relativeInclude
          (RelativeStat ''/r'' [''a.txt'', ''d''] ''/r/d/b.txt'') oneDelivered)) = 1
   \<and> \<not> isLimitHit (snd (callback treeFs relativeInclude
          (RelativeStat ''/r'' [''a.txt'', ''d''] ''/r/d/b.txt'') oneDelivered))
   \<and> search 6 treeFs relativeInclude = Some ((None, False), relativeIncludeEnd)
   \<and> relativeMatch treeFs relativeInclude ''/r'' = Some ''/r/d/b.txt''
   \<and> results relativeIncludeEnd = [''/r/d/b.txt''] \<and> resultCount relativeIncludeEnd = 0"
proof -
  have a: "filePattern treeFs absoluteInclude = Some ''/r/a.txt''" "absoluteMatch treeFs absoluteInclude"
    "maxResults absoluteInclude = Some 1" "\<not> includeMatch treeFs absoluteInclude ''/r/a.txt''"
    "cancelAt treeFs \<noteq> Some 0"
    by code_simp+
  have r: "\<not> includeMatch treeFs relativeInclude ''d/b.txt''" "\<not> stopped newWalker"
    "existingFile (fs_stat treeFs ''/r/d/b.txt'')" "\<not> stopped (resume treeFs oneDelivered)"
    "relativeMatch treeFs relativeInclude ''/r'' = Some ''/r/d/b.txt''"
    by code_simp+
  have w: "search 6 treeFs relativeInclude = Some ((None, False), relativeIncludeEnd)" by code_simp
  have e: "results relativeIncludeEnd = [''/r/d/b.txt'']" "resultCount relativeIncludeEnd = 0"
    "results oneDelivered = [''/r/a.txt'']" "resultCount oneDelivered = 1"
    "\<not> isLimitHit oneDelivered"
    by code_simp+
  from fast_paths_bypass_matchFile[of treeFs absoluteInclude "''/r/a.txt''" 0 newWalker "''/r''"
      "[''a.txt'', ''d'']" "''/r/d/b.txt''"]
    fast_paths_bypass_matchFile[of treeFs relativeInclude _ _ newWalker "''/r''"
      "[''a.txt'', ''d'']" "''/r/d/b.txt''"]
    fast_paths_bypass_matchFile[of treeFs relativeInclude _ _ oneDelivered "''/r''"
      "[''a.txt'', ''d'']" "''/r/d/b.txt''" "''/r/d/b.txt''"]
    a r w e
  show ?thesis by simp
qed


end
